theory Spec2Isabelle
  imports Complex_Main
begin

section \<open>Strings\<close>

text \<open>
  A JavaScript string is modelled as a list of code units below 256 (the Latin-1 range),
  so the character classes below are the ECMAScript ones restricted to that range:
  white space and line terminators (\<open>String.prototype.trim\<close>, the regular expression
  class \<open>\s\<close>, \<open>parseFloat\<close>'s leading white space), decimal digits (\<open>\d\<close>), upper-case
  ASCII letters (\<open>[A-Z]\<close>) and word characters (\<open>\w\<close>, which decides \<open>\b\<close>).
\<close>

definition is_ws :: "char \<Rightarrow> bool" where
  "is_ws c = (c \<in> set [CHR 0x09, CHR 0x0A, CHR 0x0B, CHR 0x0C, CHR 0x0D, CHR 0x20, CHR 0xA0])"

definition is_digit :: "char \<Rightarrow> bool" where
  "is_digit c = (c \<in> set ''0123456789'')"

definition is_upper_az :: "char \<Rightarrow> bool" where
  "is_upper_az c = (c \<in> set ''ABCDEFGHIJKLMNOPQRSTUVWXYZ'')"

definition is_word :: "char \<Rightarrow> bool" where
  "is_word c = (c \<in> set ''abcdefghijklmnopqrstuvwxyzABCDEFGHIJKLMNOPQRSTUVWXYZ0123456789_'')"

text \<open>\<open>String.prototype.trim\<close>.\<close>

definition js_trim :: "string \<Rightarrow> string" where
  "js_trim s = rev (dropWhile is_ws (rev (dropWhile is_ws s)))"

text \<open>
  \<open>String.prototype.toLowerCase\<close> on the Latin-1 range: \<open>A\<close>..\<open>Z\<close> and the accented
  capitals \<open>0xC0\<close>..\<open>0xDE\<close> (without the multiplication sign \<open>0xD7\<close>) move up by 32.
\<close>

definition lower_char :: "char \<Rightarrow> char" where
  "lower_char c =
     (let n = (of_char c :: nat)
      in if (65 \<le> n \<and> n \<le> 90) \<or> (192 \<le> n \<and> n \<le> 222 \<and> n \<noteq> 215)
         then char_of (n + 32) else c)"

definition toLowerCase :: "string \<Rightarrow> string" where
  "toLowerCase s = map lower_char s"

text \<open>\<open>String.prototype.split\<close> with a one-character separator: the empty string gives one empty piece.\<close>

fun split_on :: "char \<Rightarrow> string \<Rightarrow> string list" where
  "split_on c [] = [[]]"
| "split_on c (x # xs) =
     (if x = c then [] # split_on c xs
      else (case split_on c xs of [] \<Rightarrow> [[x]] | p # ps \<Rightarrow> (x # p) # ps))"

text \<open>\<open>String.prototype.includes\<close>: substring test.\<close>

fun starts_with :: "string \<Rightarrow> string \<Rightarrow> bool" where
  "starts_with s [] = True"
| "starts_with [] (p # ps) = False"
| "starts_with (c # cs) (p # ps) = (c = p \<and> starts_with cs ps)"

fun str_includes :: "string \<Rightarrow> string \<Rightarrow> bool" where
  "str_includes [] sub = (sub = [])"
| "str_includes (c # cs) sub = (starts_with (c # cs) sub \<or> str_includes cs sub)"

text \<open>\<open>String.prototype.lastIndexOf\<close> for one character, scanning from the end; \<open>-1\<close> when absent.\<close>

definition lastIndexOf :: "char \<Rightarrow> string \<Rightarrow> int" where
  "lastIndexOf c s = (case dropWhile (\<lambda>x. x \<noteq> c) (rev s) of [] \<Rightarrow> -1 | _ # r \<Rightarrow> int (length r))"

text \<open>
  \<open>parseInt\<close> on a string of decimal digits (the only strings the program passes to it, the
  capture of \<open>\d+\<close>). The value is kept exact; a JavaScript Number loses precision only
  above \<open>2^53\<close>, where every day number already lies outside the range of \<open>Date\<close>.
\<close>

definition digit_val :: "char \<Rightarrow> nat" where
  "digit_val c = of_char c - 48"

definition parseInt :: "string \<Rightarrow> int" where
  "parseInt ds = int (foldl (\<lambda>a c. 10 * a + digit_val c) 0 ds)"

text \<open>The relation \<open><\<close> on strings: lexicographic on code units.\<close>

fun str_lt :: "string \<Rightarrow> string \<Rightarrow> bool" where
  "str_lt [] [] = False"
| "str_lt [] (y # ys) = True"
| "str_lt (x # xs) [] = False"
| "str_lt (x # xs) (y # ys) =
     ((of_char x :: nat) < of_char y \<or> (x = y \<and> str_lt xs ys))"

text \<open>
  Leftmost match of an unanchored regular expression: \<open>m\<close> tries the pattern at the start
  of its argument, and the search moves one character to the right after each failure.
\<close>

fun regex_search :: "(string \<Rightarrow> 'a option) \<Rightarrow> string \<Rightarrow> 'a option" where
  "regex_search m [] = m []"
| "regex_search m (c # cs) = (case m (c # cs) of Some r \<Rightarrow> Some r | None \<Rightarrow> regex_search m cs)"

section \<open>Dates\<close>

text \<open>
  A \<open>Date\<close> is represented by its local time value: the milliseconds since the epoch
  that its calendar fields and clock time spell out in the local zone (its UTC time
  value plus the offset of the zone at that instant), or invalid (the time value \<open>NaN\<close>).
  The calendar fields depend on the day number \<open>t div msPerDay\<close> only. Dates built from
  calendar fields (\<open>new Date(year, month, day)\<close>) and moved by \<open>setDate\<close> are computed in
  this representation directly; comparing two dates compares their local time values,
  which orders them as their instants are ordered outside the hour a zone repeats when
  daylight-saving time ends. Arithmetic on the UTC time value (\<open>getTime() + k\<close>) needs
  the zone, see \<open>local_date\<close> below.
  A number that may be \<open>NaN\<close> is an \<open>int option\<close>, with \<open>None\<close> for \<open>NaN\<close>.
\<close>

datatype jsdate = InvalidDate | Time int

definition msPerDay :: int where
  "msPerDay = 86400000"

definition time_clip :: "int \<Rightarrow> jsdate" where
  "time_clip t = (if \<bar>t\<bar> \<le> 8640000000000000 then Time t else InvalidDate)"

text \<open>Day number of a proleptic Gregorian date (month \<open>1\<close>..\<open>12\<close>), and back.\<close>

definition days_from_civil :: "int \<Rightarrow> int \<Rightarrow> int \<Rightarrow> int" where
  "days_from_civil y m d =
     (let y' = (if m \<le> 2 then y - 1 else y);
          era = y' div 400;
          yoe = y' - era * 400;
          doy = (153 * (if m > 2 then m - 3 else m + 9) + 2) div 5 + d - 1;
          doe = yoe * 365 + yoe div 4 - yoe div 100 + doy
      in era * 146097 + doe - 719468)"

definition civil_from_days :: "int \<Rightarrow> int \<times> int \<times> int" where
  "civil_from_days n =
     (let z = n + 719468;
          era = z div 146097;
          doe = z - era * 146097;
          yoe = (doe - doe div 1460 + doe div 36524 - doe div 146096) div 365;
          doy = doe - (365 * yoe + yoe div 4 - yoe div 100);
          mp = (5 * doy + 2) div 153;
          d = doy - (153 * mp + 2) div 5 + 1;
          m = (if mp < 10 then mp + 3 else mp - 9);
          y = yoe + era * 400
      in (if m \<le> 2 then y + 1 else y, m, d))"

text \<open>
  \<open>new Date(year, month, day)\<close>: months count from 0 and overflow into the years, the day
  of the month overflows into the months (\<open>MakeDay\<close>), a year \<open>0\<close>..\<open>99\<close> means \<open>1900 + year\<close>,
  and any \<open>NaN\<close> argument gives an invalid date.
\<close>

definition make_day :: "int \<Rightarrow> int \<Rightarrow> int \<Rightarrow> int" where
  "make_day y m dt = days_from_civil (y + m div 12) (m mod 12 + 1) 1 + dt - 1"

definition new_Date3 :: "int option \<Rightarrow> int option \<Rightarrow> int option \<Rightarrow> jsdate" where
  "new_Date3 y m dt =
     (case (y, m, dt) of
        (Some y', Some m', Some dt') \<Rightarrow>
          time_clip (make_day (if 0 \<le> y' \<and> y' \<le> 99 then 1900 + y' else y') m' dt' * msPerDay)
      | _ \<Rightarrow> InvalidDate)"

definition getFullYear :: "jsdate \<Rightarrow> int option" where
  "getFullYear d = (case d of InvalidDate \<Rightarrow> None | Time t \<Rightarrow> Some (fst (civil_from_days (t div msPerDay))))"

definition getMonth :: "jsdate \<Rightarrow> int option" where
  "getMonth d = (case d of InvalidDate \<Rightarrow> None | Time t \<Rightarrow> Some (fst (snd (civil_from_days (t div msPerDay))) - 1))"

definition getDate :: "jsdate \<Rightarrow> int option" where
  "getDate d = (case d of InvalidDate \<Rightarrow> None | Time t \<Rightarrow> Some (snd (snd (civil_from_days (t div msPerDay)))))"


text \<open>\<open>a === b\<close> on numbers: \<open>NaN\<close> equals nothing.\<close>

definition num_eq :: "int option \<Rightarrow> int option \<Rightarrow> bool" where
  "num_eq a b = (case (a, b) of (Some x, Some y) \<Rightarrow> x = y | _ \<Rightarrow> False)"

text \<open>The comparison by calendar year, month and day that the date filter uses.\<close>

definition same_ymd :: "jsdate \<Rightarrow> jsdate \<Rightarrow> bool" where
  "same_ymd a b =
     (num_eq (getFullYear a) (getFullYear b) \<and> num_eq (getMonth a) (getMonth b)
      \<and> num_eq (getDate a) (getDate b))"

text \<open>\<open>d <= e\<close> on dates compares the time values; it is false when one of them is \<open>NaN\<close>.\<close>

definition date_le :: "jsdate \<Rightarrow> jsdate \<Rightarrow> bool" where
  "date_le d e = (case (d, e) of (Time a, Time b) \<Rightarrow> a \<le> b | _ \<Rightarrow> False)"

text \<open>\<open>d.setDate(d.getDate() + 1)\<close>: the same local time on the next calendar day.\<close>

definition next_day :: "jsdate \<Rightarrow> jsdate" where
  "next_day d = (case d of InvalidDate \<Rightarrow> InvalidDate | Time t \<Rightarrow> time_clip (t + msPerDay))"

text \<open>
  The loop \<open>for (let d = new Date(start); d <= end; d.setDate(d.getDate() + 1)) dates.push(new Date(d))\<close>,
  which the program writes three times.
\<close>

function date_walk :: "jsdate \<Rightarrow> jsdate \<Rightarrow> jsdate list" where
  "date_walk d e = (if date_le d e then d # date_walk (next_day d) e else [])"
  by pat_completeness auto
termination
proof (relation "measure (\<lambda>(d, e). case (d, e) of (Time a, Time b) \<Rightarrow> nat (b - a + 1) | _ \<Rightarrow> 0)")
  show "wf (measure (\<lambda>(d, e). case (d, e) of (Time a, Time b) \<Rightarrow> nat (b - a + 1) | _ \<Rightarrow> 0))"
    by simp
next
  fix d e
  assume le: "date_le d e"
  then obtain a b where d: "d = Time a" and e: "e = Time b" and ab: "a \<le> b"
    by (auto simp: date_le_def split: jsdate.splits)
  show "((next_day d, e), (d, e)) \<in> measure (\<lambda>(d, e). case (d, e) of (Time a, Time b) \<Rightarrow> nat (b - a + 1) | _ \<Rightarrow> 0)"
    using ab by (simp add: d e next_day_def time_clip_def msPerDay_def)
qed

declare date_walk.simps [simp del]

section \<open>The date-range parser\<close>

definition monthMap :: "(string \<times> int) list" where
  "monthMap =
     [(''jan'', 0), (''feb'', 1), (''mar'', 2), (''apr'', 3), (''may'', 4), (''jun'', 5),
      (''jul'', 6), (''aug'', 7), (''sep'', 8), (''oct'', 9), (''nov'', 10), (''dec'', 11)]"

text \<open>
  The regular expressions \<open>/(jan|feb|...|dec)\.?\s+(\d+)/i\<close> (\<open>dot = True\<close>) and
  \<open>/(jan|feb|...|dec)\s+(\d+)/i\<close> (\<open>dot = False\<close>) tried at the start of \<open>s\<close>; the result is
  the pair of capture groups. The alternatives are three letters each and differ, and a
  full stop, white space and digits exclude one another, so the greedy match is the only one.
  Without the \<open>u\<close> flag a letter of the pattern matches its two ASCII cases only.
\<close>

definition month_day_at :: "bool \<Rightarrow> string \<Rightarrow> (string \<times> string) option" where
  "month_day_at dot s =
     (let m = take 3 s; r = drop 3 s
      in if toLowerCase m \<in> set (map fst monthMap) then
           (let r1 = (case r of c # cs \<Rightarrow> if dot \<and> c = CHR ''.'' then cs else r | [] \<Rightarrow> r);
                sp = takeWhile is_ws r1;
                ds = takeWhile is_digit (dropWhile is_ws r1)
            in if sp \<noteq> [] \<and> ds \<noteq> [] then Some (m, ds) else None)
         else None)"

definition date_of_match :: "(string \<times> string) option \<Rightarrow> jsdate option" where
  "date_of_match mt =
     (case mt of
        Some (m, ds) \<Rightarrow>
          (case map_of monthMap (take 3 (toLowerCase m)) of
             Some month \<Rightarrow> Some (new_Date3 (Some 2025) (Some month) (Some (parseInt ds)))
           | None \<Rightarrow> None)
      | None \<Rightarrow> None)"

definition parseDateWithMonth :: "string \<Rightarrow> jsdate option" where
  "parseDateWithMonth dateStr = date_of_match (regex_search (month_day_at True) dateStr)"

definition parseSimpleDate :: "string \<Rightarrow> jsdate option" where
  "parseSimpleDate dateStr = date_of_match (regex_search (month_day_at False) dateStr)"

text \<open>\<open>endStr.match(/(\d+)/)\<close>: the first run of digits.\<close>

definition first_digits :: "string \<Rightarrow> string option" where
  "first_digits s =
     (let ds = takeWhile is_digit (dropWhile (\<lambda>c. \<not> is_digit c) s)
      in if ds = [] then None else Some ds)"

text \<open>The body of the loop over the comma-separated ranges: the dates one range adds.\<close>

definition parse_range :: "string \<Rightarrow> jsdate list" where
  "parse_range rng =
     (if CHR ''|'' \<in> set rng then
        (case map js_trim (split_on CHR ''|'' rng) of
           startStr # endStr # _ \<Rightarrow>
             if startStr \<noteq> [] \<and> endStr \<noteq> [] then
               (case (parseSimpleDate startStr, parseSimpleDate endStr) of
                  (Some startDate, Some endDate) \<Rightarrow> date_walk startDate endDate
                | _ \<Rightarrow> [])
             else []
         | _ \<Rightarrow> [])
      else if CHR ''-'' \<in> set rng then
        (let dashPos = lastIndexOf CHR ''-'' rng
         in if dashPos > 0 then
              (let startStr = js_trim (take (nat dashPos) rng);
                   endStr = js_trim (drop (nat (dashPos + 1)) rng);
                   startDate = parseDateWithMonth startStr;
                   endDate =
                     (case parseDateWithMonth endStr of
                        Some e \<Rightarrow> Some e
                      | None \<Rightarrow>
                          (case (first_digits endStr, startDate) of
                             (Some ds, Some s) \<Rightarrow>
                               Some (new_Date3 (Some 2025) (getMonth s) (Some (parseInt ds)))
                           | _ \<Rightarrow> None))
               in case (startDate, endDate) of
                    (Some s, Some e) \<Rightarrow> date_walk s e
                  | _ \<Rightarrow> [])
            else [])
      else (case parseDateWithMonth rng of Some singleDate \<Rightarrow> [singleDate] | None \<Rightarrow> []))"

definition parseMarketDates :: "string \<Rightarrow> jsdate list" where
  "parseMarketDates dateString = concat (map parse_range (map js_trim (split_on CHR '','' dateString)))"

section \<open>The city extractor\<close>

text \<open>\<open>/^[A-Z]{2}$/\<close>.\<close>

definition bare_state :: "string \<Rightarrow> bool" where
  "bare_state s = (case s of [a, b] \<Rightarrow> is_upper_az a \<and> is_upper_az b | _ \<Rightarrow> False)"

text \<open>\<open>\s*\d{5}\<close> at the start of \<open>s\<close>.\<close>

definition ws_zip_at :: "string \<Rightarrow> bool" where
  "ws_zip_at s = (let r = dropWhile is_ws s in length r \<ge> 5 \<and> list_all is_digit (take 5 r))"

text \<open>\<open>/[A-Z]{2}\s*\d{5}/\<close>, the pattern of the fallback, tried at the start of \<open>s\<close> and anywhere.\<close>

definition loose_zip_at :: "string \<Rightarrow> bool" where
  "loose_zip_at s = (case s of a # b # r \<Rightarrow> is_upper_az a \<and> is_upper_az b \<and> ws_zip_at r | _ \<Rightarrow> False)"

fun loose_zip :: "string \<Rightarrow> bool" where
  "loose_zip [] = False"
| "loose_zip (c # cs) = (loose_zip_at (c # cs) \<or> loose_zip cs)"

text \<open>
  \<open>/\b[A-Z]{2}\b\s*\d{5}/\<close>, the pattern of the scan: \<open>\b\<close> holds between two positions
  of which exactly one is a word character; \<open>prev\<close> is the character before the position
  tried, absent at the start of the string.
\<close>

definition word_boundary :: "char option \<Rightarrow> char option \<Rightarrow> bool" where
  "word_boundary p n =
     ((case p of None \<Rightarrow> False | Some c \<Rightarrow> is_word c) \<noteq> (case n of None \<Rightarrow> False | Some c \<Rightarrow> is_word c))"

definition strict_zip_at :: "char option \<Rightarrow> string \<Rightarrow> bool" where
  "strict_zip_at prev s =
     (case s of
        a # b # r \<Rightarrow>
          word_boundary prev (Some a) \<and> is_upper_az a \<and> is_upper_az b
          \<and> word_boundary (Some b) (case r of [] \<Rightarrow> None | c # _ \<Rightarrow> Some c) \<and> ws_zip_at r
      | _ \<Rightarrow> False)"

fun strict_zip_from :: "char option \<Rightarrow> string \<Rightarrow> bool" where
  "strict_zip_from prev [] = False"
| "strict_zip_from prev (c # cs) = (strict_zip_at prev (c # cs) \<or> strict_zip_from (Some c) cs)"

definition strict_zip :: "string \<Rightarrow> bool" where
  "strict_zip s = strict_zip_from None s"

text \<open>\<open>/^\d+\s/\<close>: a street number.\<close>

definition street_number :: "string \<Rightarrow> bool" where
  "street_number s =
     (takeWhile is_digit s \<noteq> [] \<and> (case dropWhile is_digit s of [] \<Rightarrow> False | c # _ \<Rightarrow> is_ws c))"

text \<open>
  The scan \<open>for (let i = parts.length - 1; i >= 0; i--)\<close>; the second argument is \<open>i + 1\<close>.
  \<open>Some city\<close> is the \<open>return\<close> inside the loop; \<open>None\<close> is the \<open>break\<close> as well as
  the end of the loop, after both of which the fallback runs.
\<close>

fun city_scan :: "string list \<Rightarrow> nat \<Rightarrow> string option" where
  "city_scan parts 0 = None"
| "city_scan parts (Suc i) =
     (let part = parts ! i
      in if strict_zip part \<or> bare_state part then
           (if i > 0 then
              (let cityPart = parts ! (i - 1)
               in if cityPart \<noteq> [] \<and> \<not> street_number cityPart then Some cityPart else None)
            else None)
         else city_scan parts i)"

definition city_fallback :: "string list \<Rightarrow> string" where
  "city_fallback parts =
     (if length parts \<ge> 2 then
        (let lastPart = parts ! (length parts - 1)
         in if loose_zip lastPart \<or> bare_state lastPart then
              (let cityPart = js_trim (parts ! (length parts - 2))
               in if cityPart \<noteq> [] \<and> \<not> street_number cityPart then cityPart else ''Unknown'')
            else ''Unknown'')
      else ''Unknown'')"

definition extractCityFromAddress :: "string \<Rightarrow> string" where
  "extractCityFromAddress address =
     (if address = [] \<or> js_trim address = [] then ''Unknown''
      else (let parts = map js_trim (split_on CHR '','' address)
            in case city_scan parts (length parts) of
                 Some city \<Rightarrow> city
               | None \<Rightarrow> city_fallback parts))"

section \<open>The record builder\<close>

text \<open>
  The loop of \<open>parseCSVLine\<close> over the characters of the line, with its three variables:
  the fields pushed so far, the field being read and the quote state. A quote directly
  after a quote inside a quoted field is one literal quote, and the loop skips it.
\<close>

fun csv_loop :: "string \<Rightarrow> string list \<Rightarrow> string \<Rightarrow> bool \<Rightarrow> string list" where
  "csv_loop [] result current insideQuotes = result @ [current]"
| "csv_loop [c] result current insideQuotes =
     (if c = CHR 0x22 then csv_loop [] result current (\<not> insideQuotes)
      else if c = CHR '','' \<and> \<not> insideQuotes then csv_loop [] (result @ [current]) [] insideQuotes
      else csv_loop [] result (current @ [c]) insideQuotes)"
| "csv_loop (c # nextChar # cs) result current insideQuotes =
     (if c = CHR 0x22 then
        (if insideQuotes \<and> nextChar = CHR 0x22 then csv_loop cs result (current @ [CHR 0x22]) insideQuotes
         else csv_loop (nextChar # cs) result current (\<not> insideQuotes))
      else if c = CHR '','' \<and> \<not> insideQuotes then csv_loop (nextChar # cs) (result @ [current]) [] insideQuotes
      else csv_loop (nextChar # cs) result (current @ [c]) insideQuotes)"

definition parseCSVLine :: "string \<Rightarrow> string list" where
  "parseCSVLine line = csv_loop line [] [] False"

text \<open>
  A Number as \<open>parseFloat\<close> returns it: \<open>NaN\<close>, an infinity, or the exact decimal value of
  the literal read. The rounding to a binary64 value is not modelled, except where the
  program observes it: a value of magnitude at most \<open>2^-1075\<close> rounds to zero, and zero is
  falsy like \<open>NaN\<close>.
\<close>

datatype jsnum = NaN | Fin rat | PosInf | NegInf

definition truthy :: "jsnum \<Rightarrow> bool" where
  "truthy n = (case n of NaN \<Rightarrow> False | Fin q \<Rightarrow> \<bar>q\<bar> > 1 / 2 ^ 1075 | PosInf \<Rightarrow> True | NegInf \<Rightarrow> True)"

definition negate :: "jsnum \<Rightarrow> jsnum" where
  "negate n = (case n of NaN \<Rightarrow> NaN | Fin q \<Rightarrow> Fin (- q) | PosInf \<Rightarrow> NegInf | NegInf \<Rightarrow> PosInf)"

text \<open>
  The exponent part \<open>e\<close> or \<open>E\<close>, an optional sign and at least one digit; an incomplete
  exponent is not part of the literal.
\<close>

definition exponent_part :: "string \<Rightarrow> int" where
  "exponent_part s =
     (case s of
        [] \<Rightarrow> 0
      | e # r \<Rightarrow>
          if e = CHR ''e'' \<or> e = CHR ''E'' then
            (case r of
               [] \<Rightarrow> 0
             | sg # r' \<Rightarrow>
                 if sg = CHR ''-'' then - parseInt (takeWhile is_digit r')
                 else if sg = CHR ''+'' then parseInt (takeWhile is_digit r')
                 else parseInt (takeWhile is_digit r))
          else 0)"

definition scale10 :: "rat \<Rightarrow> int \<Rightarrow> rat" where
  "scale10 q e = (if e \<ge> 0 then q * 10 ^ nat e else q / 10 ^ nat (- e))"

text \<open>The longest prefix that is a \<open>StrUnsignedDecimalLiteral\<close>, and its value.\<close>

definition unsigned_literal :: "string \<Rightarrow> jsnum" where
  "unsigned_literal s =
     (if starts_with s ''Infinity'' then PosInf
      else
        (let ip = takeWhile is_digit s; r = dropWhile is_digit s
         in case r of
              c # r' \<Rightarrow>
                if c = CHR ''.'' then
                  (let fp = takeWhile is_digit r'; r'' = dropWhile is_digit r'
                   in if ip = [] \<and> fp = [] then NaN
                      else Fin (scale10 (of_int (parseInt ip) + of_int (parseInt fp) / 10 ^ length fp)
                                 (exponent_part r'')))
                else if ip = [] then NaN
                else Fin (scale10 (of_int (parseInt ip)) (exponent_part r))
            | [] \<Rightarrow> if ip = [] then NaN else Fin (of_int (parseInt ip))))"

definition parseFloat :: "string \<Rightarrow> jsnum" where
  "parseFloat s =
     (case dropWhile is_ws s of
        [] \<Rightarrow> NaN
      | c # r \<Rightarrow>
          if c = CHR ''+'' then unsigned_literal r
          else if c = CHR ''-'' then negate (unsigned_literal r)
          else unsigned_literal (c # r))"

record market =
  name :: string
  lat :: "jsnum option"
  lon :: "jsnum option"
  region :: string
  city :: string
  zipCode :: string
  address :: string
  date :: string
  cost :: string
  website :: string
  description :: string
  dates :: "jsdate list"

text \<open>\<open>values[i]?.trim() || dflt\<close>: a missing or blank field gives the default.\<close>

definition field_or :: "string list \<Rightarrow> nat \<Rightarrow> string \<Rightarrow> string" where
  "field_or vs i dflt =
     (if i < length vs then (let t = js_trim (vs ! i) in if t = [] then dflt else t) else dflt)"

text \<open>\<open>parseFloat(v) || null\<close>.\<close>

definition float_or_null :: "string \<Rightarrow> jsnum option" where
  "float_or_null v = (let n = parseFloat v in if truthy n then Some n else None)"

text \<open>The body of the loop of \<open>parseCSV\<close> for one line: the record pushed, if any.\<close>

definition parse_row :: "string \<Rightarrow> market option" where
  "parse_row line =
     (let vs = parseCSVLine line
      in if length vs < 3 \<or> js_trim (vs ! 0) = [] then None
         else
           (let addr = field_or vs 5 [];
                m = \<lparr> name = field_or vs 0 [],
                      lat = float_or_null (vs ! 1),
                      lon = float_or_null (vs ! 2),
                      region = field_or vs 3 ''Unknown'',
                      city = extractCityFromAddress addr,
                      zipCode = field_or vs 4 [],
                      address = addr,
                      date = field_or vs 6 [],
                      cost = field_or vs 7 ''Free'',
                      website = field_or vs 8 [],
                      description = field_or vs 9 [],
                      dates = [] \<rparr>
            in if lat m \<noteq> None \<and> lon m \<noteq> None
               then Some (m\<lparr>dates := parseMarketDates (date m)\<rparr>)
               else None))"

fun parseCSV_loop :: "string list \<Rightarrow> market list" where
  "parseCSV_loop [] = []"
| "parseCSV_loop (l # ls) =
     (case parse_row l of None \<Rightarrow> parseCSV_loop ls | Some m \<Rightarrow> m # parseCSV_loop ls)"

definition parseCSV :: "string \<Rightarrow> market list" where
  "parseCSV csv =
     (let lines = split_on CHR 0x0A (js_trim csv)
      in if length lines < 2 then [] else parseCSV_loop (tl lines))"

section \<open>The catalog: filters and sorting\<close>

record filters =
  search :: string
  city_filter :: string
  dateFilter :: string

record state =
  markets :: "market list"
  filteredMarkets :: "market list"
  sortColumn :: string
  sortAscending :: bool
  currentFilters :: filters
  today :: jsdate
  tomorrow :: jsdate
  weekendStart :: "jsdate option"
  weekendEnd :: "jsdate option"

datatype js_error = TypeError





text \<open>
  \<open>state.weekendStart\<close> and \<open>state.weekendEnd\<close> are \<open>null\<close> until \<open>calculateWeekendDates\<close>
  has run, which the program does before it filters anything; \<open>new Date(null)\<close> is the
  epoch and \<open>d <= null\<close> compares with \<open>0\<close> (the epoch is taken at local time value 0).
\<close>

definition null_as_epoch :: "jsdate option \<Rightarrow> jsdate" where
  "null_as_epoch d = (case d of None \<Rightarrow> Time 0 | Some x \<Rightarrow> x)"

text \<open>
  \<open>marketIsOpenOnDate\<close>. For a filter kind other than the three known ones \<open>targetDate\<close>
  stays \<open>undefined\<close>, and the callback of \<open>some\<close> throws a \<open>TypeError\<close> at the first date.
\<close>

definition local_midnight :: "jsdate \<Rightarrow> jsdate" where
  "local_midnight d = new_Date3 (getFullYear d) (getMonth d) (getDate d)"

definition marketIsOpenOnDate :: "state \<Rightarrow> market \<Rightarrow> string \<Rightarrow> js_error + bool" where
  "marketIsOpenOnDate st m kind =
     (if dates m = [] then Inr True
      else if kind = ''today'' then
        Inr (list_ex (\<lambda>d. same_ymd d (local_midnight (today st))) (dates m))
      else if kind = ''tomorrow'' then
        Inr (list_ex (\<lambda>d. same_ymd d (local_midnight (tomorrow st))) (dates m))
      else if kind = ''weekend'' then
        Inr (list_ex (\<lambda>d. list_ex (\<lambda>md. same_ymd md d) (dates m))
               (date_walk (null_as_epoch (weekendStart st)) (null_as_epoch (weekendEnd st))))
      else Inl TypeError)"

definition matchesSearch :: "state \<Rightarrow> market \<Rightarrow> bool" where
  "matchesSearch st m =
     (let q = toLowerCase (search (currentFilters st))
      in str_includes (toLowerCase (name m)) q \<or> str_includes (toLowerCase (address m)) q
         \<or> str_includes (toLowerCase (description m)) q)"

definition matchesCity :: "state \<Rightarrow> market \<Rightarrow> bool" where
  "matchesCity st m = (city_filter (currentFilters st) = [] \<or> city m = city_filter (currentFilters st))"

definition matchesDate :: "state \<Rightarrow> market \<Rightarrow> js_error + bool" where
  "matchesDate st m =
     (if dateFilter (currentFilters st) \<noteq> [] then marketIsOpenOnDate st m (dateFilter (currentFilters st))
      else Inr True)"

text \<open>
  \<open>state.markets.filter(...)\<close>: the callback computes all three tests before it combines
  them, so an exception of the date test ends the whole filter.
\<close>

fun filter_markets :: "state \<Rightarrow> market list \<Rightarrow> js_error + market list" where
  "filter_markets st [] = Inr []"
| "filter_markets st (m # ms) =
     (case matchesDate st m of
        Inl e \<Rightarrow> Inl e
      | Inr dt \<Rightarrow>
          (case filter_markets st ms of
             Inl e \<Rightarrow> Inl e
           | Inr rest \<Rightarrow> Inr (if matchesSearch st m \<and> matchesCity st m \<and> dt then m # rest else rest)))"

text \<open>
  The comparison function of \<open>sortFilteredMarkets\<close>: the \<open>switch\<close> picks the lower-cased
  value to compare, and its \<open>default\<close> branch (here \<open>None\<close>) makes all records equal.
\<close>

definition sort_value :: "state \<Rightarrow> market \<Rightarrow> string option" where
  "sort_value st a =
     (if sortColumn st = ''name'' then Some (toLowerCase (name a))
      else if sortColumn st = ''date'' then Some (toLowerCase (date a))
      else if sortColumn st = ''city'' then Some (toLowerCase (city a))
      else None)"

definition compare_markets :: "state \<Rightarrow> market \<Rightarrow> market \<Rightarrow> int" where
  "compare_markets st a b =
     (case (sort_value st a, sort_value st b) of
        (Some aVal, Some bVal) \<Rightarrow>
          if str_lt aVal bVal then (if sortAscending st then -1 else 1)
          else if str_lt bVal aVal then (if sortAscending st then 1 else -1)
          else 0
      | _ \<Rightarrow> 0)"

text \<open>
  \<open>Array.prototype.sort\<close> with a comparison function is a stable sort (ECMAScript 2019):
  an insertion sort that puts an element before the first one it does not come after.
\<close>

fun insort_cmp :: "('a \<Rightarrow> 'a \<Rightarrow> int) \<Rightarrow> 'a \<Rightarrow> 'a list \<Rightarrow> 'a list" where
  "insort_cmp c x [] = [x]"
| "insort_cmp c x (y # ys) = (if c x y \<le> 0 then x # y # ys else y # insort_cmp c x ys)"

fun array_sort :: "('a \<Rightarrow> 'a \<Rightarrow> int) \<Rightarrow> 'a list \<Rightarrow> 'a list" where
  "array_sort c [] = []"
| "array_sort c (x # xs) = insort_cmp c x (array_sort c xs)"

definition sortFilteredMarkets :: "state \<Rightarrow> state" where
  "sortFilteredMarkets st = st\<lparr>filteredMarkets := array_sort (compare_markets st) (filteredMarkets st)\<rparr>"

definition applyFilters :: "state \<Rightarrow> js_error + state" where
  "applyFilters st =
     (case filter_markets st (markets st) of
        Inl e \<Rightarrow> Inl e
      | Inr ms \<Rightarrow> Inr (sortFilteredMarkets (st\<lparr>filteredMarkets := ms\<rparr>)))"

section \<open>Day numbers of a text and the season year\<close>

text \<open>
  The numbers written in a text: its maximal runs of digits, from left to right. Every
  day number that the date-range parser reads is one of them.
\<close>

function digit_runs :: "string \<Rightarrow> string list" where
  "digit_runs [] = []"
| "digit_runs (c # cs) =
     (if is_digit c then takeWhile is_digit (c # cs) # digit_runs (dropWhile is_digit cs)
      else digit_runs cs)"
  by pat_completeness auto
termination
  by (relation "measure length") (auto simp: less_Suc_eq_le length_dropWhile_le)

text \<open>\<open>x\<close> occurs in \<open>s\<close> with no digit directly before or after it.\<close>

definition bounded_in :: "string \<Rightarrow> string \<Rightarrow> bool" where
  "bounded_in x s \<longleftrightarrow>
     (\<exists>p q. s = p @ x @ q \<and> (p = [] \<or> \<not> is_digit (last p)) \<and> (q = [] \<or> \<not> is_digit (hd q)))"

text \<open>A valid date at a time of the year 2025 (day numbers 20089 to 20453).\<close>

definition in_2025 :: "jsdate \<Rightarrow> bool" where
  "in_2025 d \<longleftrightarrow> (\<exists>t. d = Time t \<and> 20089 * msPerDay \<le> t \<and> t < 20454 * msPerDay)"

section \<open>Example data\<close>

text \<open>
  Two records as \<open>parseCSV\<close> builds them and a session state for Saturday 13 December 2025,
  10:00 local time, with the city filter set to Denver and the date filter to today.
\<close>

definition market_A :: market where
  "market_A =
     \<lparr> name = ''Mile High Market'', lat = Some (Fin (397 / 10)), lon = Some (Fin (- 105)),
       region = ''Unknown'', city = ''Denver'', zipCode = [], address = ''1 Main St, Denver, CO 80211'',
       date = ''Dec. 13'', cost = ''Free'', website = [], description = [],
       dates = [Time 1765584000000] \<rparr>"

definition market_B :: market where
  "market_B =
     \<lparr> name = ''Flatirons Fair'', lat = Some (Fin 40), lon = Some (Fin (- 105)),
       region = ''Unknown'', city = ''Boulder'', zipCode = [], address = ''2 Pearl St, Boulder, CO 80302'',
       date = [], cost = ''Free'', website = [], description = [],
       dates = [] \<rparr>"

definition example_state :: state where
  "example_state =
     \<lparr> markets = [market_A, market_B], filteredMarkets = [], sortColumn = ''name'',
       sortAscending = True,
       currentFilters = \<lparr> search = [], city_filter = ''Denver'', dateFilter = ''today'' \<rparr>,
       today = Time 1765620000000, tomorrow = Time 1765706400000,
       weekendStart = None, weekendEnd = None \<rparr>"




text \<open>
  Three records of which the first and the third have the same lower-cased name, and a
  state that lists them by name, descending, with no filter set.
\<close>

definition market_H1 :: market where
  "market_H1 =
     \<lparr> name = ''Holiday Market'', lat = Some (Fin 39), lon = Some (Fin (- 105)),
       region = ''Unknown'', city = ''Denver'', zipCode = [], address = [],
       date = ''Dec. 6'', cost = ''Free'', website = [], description = [],
       dates = [Time 1764979200000] \<rparr>"

definition market_AF :: market where
  "market_AF =
     \<lparr> name = ''Alpine Fair'', lat = Some (Fin 40), lon = Some (Fin (- 106)),
       region = ''Unknown'', city = ''Vail'', zipCode = [], address = [],
       date = [], cost = ''Free'', website = [], description = [],
       dates = [] \<rparr>"

definition market_H2 :: market where
  "market_H2 =
     \<lparr> name = ''HOLIDAY MARKET'', lat = Some (Fin 38), lon = Some (Fin (- 104)),
       region = ''Unknown'', city = ''Pueblo'', zipCode = [], address = [],
       date = ''Dec. 7'', cost = ''5'', website = [], description = [],
       dates = [Time 1765065600000] \<rparr>"

definition sort_state :: state where
  "sort_state =
     \<lparr> markets = [market_H1, market_AF, market_H2], filteredMarkets = [], sortColumn = ''name'',
       sortAscending = False,
       currentFilters = \<lparr> search = [], city_filter = [], dateFilter = [] \<rparr>,
       today = Time 1765620000000, tomorrow = Time 1765706400000,
       weekendStart = None, weekendEnd = None \<rparr>"

section \<open>Strings and sorting: auxiliary facts\<close>

lemma starts_with_iff: "starts_with s p \<longleftrightarrow> (\<exists>post. s = p @ post)"
  by (induction s p rule: starts_with.induct) auto

lemma str_includes_iff: "str_includes s sub \<longleftrightarrow> (\<exists>pre post. s = pre @ sub @ post)"
proof (induction s)
  case Nil
  then show ?case by auto
next
  case (Cons c cs)
  show ?case
  proof
    assume "str_includes (c # cs) sub"
    then consider "starts_with (c # cs) sub" | "str_includes cs sub" by auto
    then show "\<exists>pre post. c # cs = pre @ sub @ post"
    proof cases
      case 1
      then obtain post where "c # cs = sub @ post" by (auto simp: starts_with_iff)
      then have "c # cs = [] @ sub @ post" by simp
      then show ?thesis by blast
    next
      case 2
      then obtain pre post where "cs = pre @ sub @ post" using Cons.IH by blast
      then have "c # cs = (c # pre) @ sub @ post" by simp
      then show ?thesis by blast
    qed
  next
    assume "\<exists>pre post. c # cs = pre @ sub @ post"
    then obtain pre post where e: "c # cs = pre @ sub @ post" by blast
    show "str_includes (c # cs) sub"
    proof (cases pre)
      case Nil
      then have "starts_with (c # cs) sub" using e by (auto simp: starts_with_iff)
      then show ?thesis by simp
    next
      case (Cons a pre')
      then have "cs = pre' @ sub @ post" using e by simp
      then have "str_includes cs sub" using Cons.IH by blast
      then show ?thesis by simp
    qed
  qed
qed

lemma str_lt_irrefl: "\<not> str_lt s s"
  by (induction s) auto

lemma set_insort_cmp: "set (insort_cmp c x ys) = insert x (set ys)"
  by (induction ys) auto

lemma set_array_sort: "set (array_sort c xs) = set xs"
  by (induction xs) (auto simp: set_insort_cmp)

text \<open>
  Inserting an element leaves the elements of a class \<open>P\<close> in their order, and puts a
  new element of the class in front of them when it compares as not greater to all of them.
\<close>

lemma filter_insort_cmp_neg:
  "\<not> P x \<Longrightarrow> filter P (insort_cmp c x ys) = filter P ys"
  by (induction ys) auto

lemma filter_insort_cmp_pos:
  "P x \<Longrightarrow> (\<And>y. P y \<Longrightarrow> c x y \<le> 0) \<Longrightarrow> filter P (insort_cmp c x ys) = x # filter P ys"
  by (induction ys) auto

lemma array_sort_stable:
  assumes "\<And>x y. P x \<Longrightarrow> P y \<Longrightarrow> c x y \<le> 0"
  shows "filter P (array_sort c xs) = filter P xs"
proof (induction xs)
  case Nil
  show ?case by simp
next
  case (Cons x xs)
  show ?case
  proof (cases "P x")
    case True
    then have "filter P (insort_cmp c x (array_sort c xs)) = x # filter P (array_sort c xs)"
      using assms by (intro filter_insort_cmp_pos) auto
    then show ?thesis using True Cons.IH by simp
  next
    case False
    then show ?thesis using Cons.IH by (simp add: filter_insort_cmp_neg)
  qed
qed

section \<open>The catalog: auxiliary facts\<close>

lemma filter_markets_total:
  "\<forall>m \<in> set ms. \<exists>b. matchesDate st m = Inr b \<Longrightarrow>
   filter_markets st ms =
     Inr (filter (\<lambda>m. matchesSearch st m \<and> matchesCity st m \<and> matchesDate st m = Inr True) ms)"
  by (induction ms) auto

lemma filter_markets_Inr:
  "filter_markets st ms = Inr r \<Longrightarrow>
   r = filter (\<lambda>m. matchesSearch st m \<and> matchesCity st m \<and> matchesDate st m = Inr True) ms"
  by (induction ms arbitrary: r) (auto split: sum.splits)

lemma matchesDate_known_kind:
  "dateFilter (currentFilters st) \<in> {[], ''today'', ''tomorrow'', ''weekend''} \<Longrightarrow>
   \<exists>b. matchesDate st m = Inr b"
  by (auto simp: matchesDate_def marketIsOpenOnDate_def)

lemma compare_markets_same_value:
  "sort_value st a = sort_value st b \<Longrightarrow> compare_markets st a b = 0"
  by (auto simp: compare_markets_def str_lt_irrefl split: option.splits)

lemma sort_value_upd: "sort_value (st\<lparr>filteredMarkets := ms\<rparr>) = sort_value st"
  by (rule ext) (simp add: sort_value_def)

lemma compare_markets_upd: "compare_markets (st\<lparr>filteredMarkets := ms\<rparr>) = compare_markets st"
  by (intro ext) (simp add: compare_markets_def sort_value_upd)

lemma sort_stable_key:
  "filter (\<lambda>m. sort_value st m = k) (array_sort (compare_markets st) xs) = filter (\<lambda>m. sort_value st m = k) xs"
  by (rule array_sort_stable) (simp add: compare_markets_same_value)

lemma applyFilters_example:
  "applyFilters example_state = Inr (example_state\<lparr>filteredMarkets := [market_A]\<rparr>)"
  by code_simp

section \<open>The weekend window: auxiliary facts\<close>






section \<open>The city extractor: auxiliary facts\<close>

lemma city_scan_no_match:
  "\<forall>p \<in> set parts. \<not> strict_zip p \<and> \<not> bare_state p \<Longrightarrow> n \<le> length parts \<Longrightarrow>
   city_scan parts n = None"
  by (induction n) (simp_all add: Let_def)

lemma city_scan_result:
  "city_scan parts n = Some c \<Longrightarrow> n \<le> length parts \<Longrightarrow> c \<in> set parts"
proof (induction n)
  case 0
  then show ?case by simp
next
  case (Suc i)
  show ?case
  proof (cases "strict_zip (parts ! i) \<or> bare_state (parts ! i)")
    case True
    with Suc.prems have "0 < i" and "c = parts ! (i - 1)"
      by (auto simp: Let_def split: if_splits)
    moreover have "i - 1 < length parts"
      using Suc.prems by simp
    ultimately show ?thesis
      by simp
  next
    case False
    with Suc.prems have "city_scan parts i = Some c"
      by (simp add: Let_def)
    then show ?thesis
      using Suc.IH Suc.prems by simp
  qed
qed

lemma dropWhile_prefix_kept:
  assumes "u @ v = dropWhile P s"
  shows "dropWhile P u = u"
proof (cases u)
  case Nil
  then show ?thesis by simp
next
  case (Cons a u')
  then have "dropWhile P s = a # (u' @ v)"
    using assms by simp
  then have "\<not> P a"
    using hd_dropWhile [of P s] by (metis list.sel(1) list.distinct(1))
  then show ?thesis
    using Cons by simp
qed

lemma js_trim_idem: "js_trim (js_trim s) = js_trim s"
proof -
  define t where "t = dropWhile is_ws s"
  define u where "u = rev (dropWhile is_ws (rev t))"
  have "rev t = takeWhile is_ws (rev t) @ dropWhile is_ws (rev t)"
    by simp
  then have "t = u @ rev (takeWhile is_ws (rev t))"
    by (metis rev_append rev_rev_ident u_def)
  then have "dropWhile is_ws u = u"
    using dropWhile_prefix_kept [of u "rev (takeWhile is_ws (rev t))" is_ws s] by (simp add: t_def)
  then have "js_trim u = rev (dropWhile is_ws (rev u))"
    by (simp add: js_trim_def)
  also have "\<dots> = u"
    by (simp add: u_def)
  finally show ?thesis
    by (simp add: js_trim_def u_def t_def)
qed

lemma split_on_nonempty: "split_on c s \<noteq> []"
  by (induction s) (auto split: list.splits)

lemma city_fallback_result:
  assumes "\<forall>p \<in> set parts. js_trim p = p"
  shows "city_fallback parts = ''Unknown'' \<or> city_fallback parts \<in> set parts"
proof (cases "length parts \<ge> 2")
  case True
  then have "parts ! (length parts - 2) \<in> set parts"
    by simp
  then show ?thesis
    using assms by (auto simp: city_fallback_def Let_def)
next
  case False
  then show ?thesis
    by (simp add: city_fallback_def)
qed

lemma city_fallback_no_match:
  assumes "\<not> loose_zip (last parts)" "\<not> bare_state (last parts)"
  shows "city_fallback parts = ''Unknown''"
proof (cases "length parts \<ge> 2")
  case True
  then have "parts \<noteq> []"
    by auto
  then have "parts ! (length parts - 1) = last parts"
    by (simp add: last_conv_nth)
  then show ?thesis
    using assms by (simp add: city_fallback_def Let_def)
next
  case False
  then show ?thesis
    by (simp add: city_fallback_def)
qed

section \<open>The record builder: auxiliary facts\<close>

text \<open>
  What the code does: a line gives a record exactly when it has three tokens, a non-blank
  name, and a latitude and a longitude that parse to a truthy number, that is, to a number
  other than \<open>NaN\<close> and zero.
\<close>

lemma parse_row_accepts:
  "parse_row line \<noteq> None \<longleftrightarrow>
     length (parseCSVLine line) \<ge> 3 \<and> js_trim (parseCSVLine line ! 0) \<noteq> []
     \<and> truthy (parseFloat (parseCSVLine line ! 1)) \<and> truthy (parseFloat (parseCSVLine line ! 2))"
  unfolding parse_row_def Let_def float_or_null_def by auto

lemma set_parseCSV_loop: "set (parseCSV_loop ls) = {m. \<exists>l \<in> set ls. parse_row l = Some m}"
  by (induction ls) (auto split: option.splits)

lemma set_parseCSV:
  "set (parseCSV csv) =
     (if length (split_on CHR 0x0A (js_trim csv)) < 2 then {}
      else {m. \<exists>l \<in> set (tl (split_on CHR 0x0A (js_trim csv))). parse_row l = Some m})"
  by (simp add: parseCSV_def Let_def set_parseCSV_loop)

section \<open>Dates: auxiliary facts\<close>

lemma make_day_2025:
  assumes "0 \<le> m" "m < 12"
  shows "make_day 2025 m d = make_day 2025 m 0 + d"
    and "20088 \<le> make_day 2025 m 0" and "make_day 2025 m 0 \<le> 20422"
proof -
  from assms have "m = 0 \<or> m = 1 \<or> m = 2 \<or> m = 3 \<or> m = 4 \<or> m = 5 \<or> m = 6 \<or> m = 7
      \<or> m = 8 \<or> m = 9 \<or> m = 10 \<or> m = 11"
    by arith
  then show "20088 \<le> make_day 2025 m 0" and "make_day 2025 m 0 \<le> 20422"
    by (auto simp: make_day_def days_from_civil_def)
  show "make_day 2025 m d = make_day 2025 m 0 + d"
    by (simp add: make_day_def days_from_civil_def Let_def)
qed

lemma new_Date3_2025:
  assumes "0 \<le> m" "m < 12" "0 \<le> d" "d \<le> 8000000"
  shows "new_Date3 (Some 2025) (Some m) (Some d) = Time ((make_day 2025 m 0 + d) * 86400000)"
proof -
  have "\<bar>(make_day 2025 m 0 + d) * 86400000\<bar> \<le> 8640000000000000"
    using make_day_2025(2,3) [OF assms(1,2)] assms(3,4) by simp
  then show ?thesis
    using make_day_2025(1) [OF assms(1,2), of d]
    by (simp add: new_Date3_def time_clip_def msPerDay_def)
qed

lemma div_between:
  assumes "0 < c" "k * c \<le> x" "x < k * c + c"
  shows "x div c = (k::int)"
proof -
  have "x = (x - k * c) + k * c"
    by simp
  then have "x div c = ((x - k * c) + k * c) div c"
    by simp
  also have "\<dots> = (x - k * c) div c + k"
    using assms(1) by (subst div_mult_self1) simp_all
  also have "(x - k * c) div c = 0"
    using assms by (intro div_pos_pos_trivial) simp_all
  finally show ?thesis
    by simp
qed

text \<open>
  The day numbers of the year 2025 are 20089 to 20453; the algorithm counts January and
  February as the end of the year before.
\<close>

lemma civil_2025_early:
  assumes "20089 \<le> n" "n \<le> 20147"
  shows "fst (civil_from_days n) = 2025 \<and> 1 \<le> fst (snd (civil_from_days n))
      \<and> fst (snd (civil_from_days n)) \<le> 12"
proof -
  have era: "(n + 719468) div 146097 = 5"
    using assms by (intro div_between) simp_all
  have d1: "(n + 719468 - 5 * 146097) div 1460 = 6"
    using assms by (intro div_between) simp_all
  have d2: "(n + 719468 - 5 * 146097) div 36524 = 0"
    using assms by (intro div_between) simp_all
  have d3: "(n + 719468 - 5 * 146097) div 146096 = 0"
    using assms by (intro div_between) simp_all
  have yoe: "(n + 719468 - 5 * 146097 - 6 + 0 - 0) div 365 = 24"
    using assms by (intro div_between) simp_all
  define mp where "mp = (5 * (n + 719468 - 5 * 146097 - (365 * 24 + 24 div 4 - 24 div 100)) + 2) div 153"
  have "(5 * (306::int) + 2) div 153 \<le> mp"
    unfolding mp_def using assms by (intro zdiv_mono1) simp_all
  then have lo: "10 \<le> mp"
    by simp
  have "mp \<le> (5 * (364::int) + 2) div 153"
    unfolding mp_def using assms by (intro zdiv_mono1) simp_all
  then have hi: "mp \<le> 11"
    by simp
  show ?thesis
    unfolding civil_from_days_def Let_def era d1 d2 d3 yoe mp_def [symmetric]
    using lo hi by simp
qed

lemma civil_2025_late:
  assumes "20148 \<le> n" "n \<le> 20453"
  shows "fst (civil_from_days n) = 2025 \<and> 1 \<le> fst (snd (civil_from_days n))
      \<and> fst (snd (civil_from_days n)) \<le> 12"
proof -
  have era: "(n + 719468) div 146097 = 5"
    using assms by (intro div_between) simp_all
  have d1: "(n + 719468 - 5 * 146097) div 1460 = 6"
    using assms by (intro div_between) simp_all
  have d2: "(n + 719468 - 5 * 146097) div 36524 = 0"
    using assms by (intro div_between) simp_all
  have d3: "(n + 719468 - 5 * 146097) div 146096 = 0"
    using assms by (intro div_between) simp_all
  have yoe: "(n + 719468 - 5 * 146097 - 6 + 0 - 0) div 365 = 25"
    using assms by (intro div_between) simp_all
  define mp where "mp = (5 * (n + 719468 - 5 * 146097 - (365 * 25 + 25 div 4 - 25 div 100)) + 2) div 153"
  have "(5 * (0::int) + 2) div 153 \<le> mp"
    unfolding mp_def using assms by (intro zdiv_mono1) simp_all
  then have lo: "0 \<le> mp"
    by simp
  have "mp \<le> (5 * (305::int) + 2) div 153"
    unfolding mp_def using assms by (intro zdiv_mono1) simp_all
  then have hi: "mp \<le> 9"
    by simp
  show ?thesis
    unfolding civil_from_days_def Let_def era d1 d2 d3 yoe mp_def [symmetric]
    using lo hi by simp
qed

lemma civil_2025:
  assumes "20089 \<le> n" "n \<le> 20453"
  shows "fst (civil_from_days n) = 2025 \<and> 1 \<le> fst (snd (civil_from_days n))
      \<and> fst (snd (civil_from_days n)) \<le> 12"
proof (cases "n \<le> 20147")
  case True
  then show ?thesis
    using assms by (intro civil_2025_early)
next
  case False
  then show ?thesis
    using assms by (intro civil_2025_late) simp_all
qed

lemma date_le_Time: "date_le d e \<longleftrightarrow> (\<exists>a b. d = Time a \<and> e = Time b \<and> a \<le> b)"
  by (auto simp: date_le_def split: jsdate.splits)

lemma date_walk_empty: "\<not> date_le d e \<Longrightarrow> date_walk d e = []"
  by (subst date_walk.simps) simp

lemma date_walk_between:
  "x \<in> set (date_walk d e) \<Longrightarrow> \<exists>t a b. x = Time t \<and> d = Time a \<and> e = Time b \<and> a \<le> t \<and> t \<le> b"
proof (induction d e rule: date_walk.induct)
  case (1 d e)
  show ?case
  proof (cases "date_le d e")
    case False
    then show ?thesis
      using "1.prems" by (simp add: date_walk_empty)
  next
    case True
    then obtain a b where d: "d = Time a" and e: "e = Time b" and ab: "a \<le> b"
      by (auto simp: date_le_Time)
    from "1.prems" True have "x = d \<or> x \<in> set (date_walk (next_day d) e)"
      by (subst (asm) date_walk.simps) auto
    then show ?thesis
    proof
      assume "x = d"
      then show ?thesis using d e ab by simp
    next
      assume "x \<in> set (date_walk (next_day d) e)"
      then obtain t a' b' where x: "x = Time t" and n: "next_day d = Time a'" and "e = Time b'"
        and le: "a' \<le> t" "t \<le> b'"
        using "1.IH" [OF True] by blast
      then have "b' = b" using e by simp
      moreover have "a' = a + msPerDay"
        using n d by (auto simp: next_day_def time_clip_def split: if_splits)
      ultimately show ?thesis
        using x d e le by (simp add: msPerDay_def)
    qed
  qed
qed


section \<open>The date-range parser: auxiliary facts\<close>

lemma split_on_no_separator: "c \<notin> set s \<Longrightarrow> split_on c s = [s]"
  by (induction s) auto

lemma js_trim_unchanged:
  assumes "s \<noteq> []" "\<not> is_ws (hd s)" "\<not> is_ws (last s)"
  shows "js_trim s = s"
proof -
  have 1: "dropWhile is_ws s = s"
    using assms(1,2) by (cases s) simp_all
  have "rev s \<noteq> []" and "hd (rev s) = last s"
    using assms(1) by (simp_all add: hd_rev)
  then have "dropWhile is_ws (rev s) = hd (rev s) # tl (rev s)"
    using assms(3) by (subst (1) hd_Cons_tl [symmetric]) simp_all
  then have 2: "dropWhile is_ws (rev s) = rev s"
    using \<open>rev s \<noteq> []\<close> by simp
  show ?thesis
    by (simp add: js_trim_def 1 2)
qed

lemma lastIndexOf_last_occurrence:
  assumes "c \<notin> set r"
  shows "lastIndexOf c (l @ c # r) = int (length l)"
proof -
  have "dropWhile (\<lambda>x. x \<noteq> c) (rev r @ c # rev l) = dropWhile (\<lambda>x. x \<noteq> c) (c # rev l)"
    using assms by (intro dropWhile_append2) auto
  then show ?thesis
    by (simp add: lastIndexOf_def)
qed

lemma digit_not_ws: "is_digit c \<Longrightarrow> \<not> is_ws c"
  by (auto simp: is_digit_def is_ws_def)

lemma lower_char_other:
  "is_ws c \<or> is_digit c \<or> c = CHR '','' \<or> c = CHR ''|'' \<or> c = CHR ''-'' \<or> c = CHR ''.'' \<Longrightarrow>
   lower_char c \<notin> set ''abcdefghijklmnopqrstuvwxyz''"
  by (auto simp: is_ws_def is_digit_def lower_char_def)

lemma month_name_chars:
  assumes "toLowerCase mon \<in> set (map fst monthMap)"
  shows "length mon = 3" and "\<forall>c \<in> set mon. lower_char c \<in> set ''abcdefghijklmnopqrstuvwxyz''"
proof -
  from assms have "length (toLowerCase mon) = 3"
    by (auto simp: monthMap_def)
  then show "length mon = 3"
    by (simp add: toLowerCase_def)
  have "\<forall>x \<in> set (toLowerCase mon). x \<in> set ''abcdefghijklmnopqrstuvwxyz''"
    using assms by (auto simp: monthMap_def)
  then show "\<forall>c \<in> set mon. lower_char c \<in> set ''abcdefghijklmnopqrstuvwxyz''"
    by (simp add: toLowerCase_def)
qed

lemma month_name_plain:
  assumes "toLowerCase mon \<in> set (map fst monthMap)" "c \<in> set mon"
  shows "\<not> is_ws c" "\<not> is_digit c" "c \<noteq> CHR '',''" "c \<noteq> CHR ''|''" "c \<noteq> CHR ''-''" "c \<noteq> CHR ''.''"
  using month_name_chars(2) [OF assms(1)] assms(2) lower_char_other [of c] by blast+

lemma monthMap_range:
  assumes "map_of monthMap k = Some m"
  shows "0 \<le> m" "m < 12" "k \<in> set (map fst monthMap)"
  using assms by (auto simp: monthMap_def split: if_splits)

lemma no_month_at_digit:
  assumes "s = [] \<or> is_digit (hd s)"
  shows "month_day_at dot s = None"
proof (cases s)
  case Nil
  then show ?thesis
    by (simp add: month_day_at_def Let_def toLowerCase_def monthMap_def)
next
  case (Cons c cs)
  then have "is_digit c"
    using assms by simp
  then have "lower_char c \<notin> set ''abcdefghijklmnopqrstuvwxyz''"
    using lower_char_other [of c] by simp
  then have "toLowerCase (take 3 s) \<notin> set (map fst monthMap)"
    using Cons by (auto simp: toLowerCase_def monthMap_def)
  then show ?thesis
    by (simp add: month_day_at_def Let_def)
qed

lemma no_month_in_digits:
  "list_all is_digit s \<Longrightarrow> regex_search (month_day_at dot) s = None"
  by (induction s) (simp_all add: no_month_at_digit)

lemma month_day_at_exact:
  assumes mon: "toLowerCase mon \<in> set (map fst monthMap)"
    and dot: "dot = [] \<or> (dt \<and> dot = ''.'')"
    and sp: "sp \<noteq> []" "list_all is_ws sp"
    and ds: "ds \<noteq> []" "list_all is_digit ds"
    and rest: "rest = [] \<or> \<not> is_digit (hd rest)"
  shows "month_day_at dt (mon @ dot @ sp @ ds @ rest) = Some (mon, ds)"
proof -
  have len: "length mon = 3"
    by (rule month_name_chars(1) [OF mon])
  obtain w sp' where spc: "sp = w # sp'" and w: "is_ws w"
    using sp by (cases sp) auto
  have wdot: "w \<noteq> CHR ''.''"
    using w by (auto simp: is_ws_def)
  have r1: "(case dot @ sp @ ds @ rest of c # cs \<Rightarrow> if dt \<and> c = CHR ''.'' then cs else dot @ sp @ ds @ rest
             | [] \<Rightarrow> dot @ sp @ ds @ rest) = sp @ ds @ rest"
    using dot wdot by (auto simp: spc)
  obtain d ds' where dsc: "ds = d # ds'" and d: "is_digit d"
    using ds by (cases ds) auto
  have tw: "takeWhile is_ws (sp @ ds @ rest) = sp"
  proof -
    have "takeWhile is_ws (sp @ ds @ rest) = sp @ takeWhile is_ws (ds @ rest)"
      using sp(2) by (intro takeWhile_append2) (simp add: list_all_iff)
    then show ?thesis
      using digit_not_ws [OF d] by (simp add: dsc)
  qed
  have dw: "dropWhile is_ws (sp @ ds @ rest) = ds @ rest"
  proof -
    have "dropWhile is_ws (sp @ ds @ rest) = dropWhile is_ws (ds @ rest)"
      using sp(2) by (intro dropWhile_append2) (simp add: list_all_iff)
    then show ?thesis
      using digit_not_ws [OF d] by (simp add: dsc)
  qed
  have td: "takeWhile is_digit (ds @ rest) = ds"
  proof -
    have "takeWhile is_digit (ds @ rest) = ds @ takeWhile is_digit rest"
      using ds(2) by (intro takeWhile_append2) (simp add: list_all_iff)
    then show ?thesis
      using rest by (cases rest) auto
  qed
  show ?thesis
    using mon sp(1) ds(1) by (simp add: month_day_at_def Let_def len r1 tw dw td)
qed

lemma regex_search_at_start: "m s = Some r \<Longrightarrow> regex_search m s = Some r"
  by (cases s) simp_all

lemma date_of_match_month:
  assumes "map_of monthMap (toLowerCase mon) = Some m"
  shows "date_of_match (Some (mon, ds)) = Some (new_Date3 (Some 2025) (Some m) (Some (parseInt ds)))"
proof -
  have "length (toLowerCase mon) = 3"
    using month_name_chars(1) [OF monthMap_range(3) [OF assms]] by (simp add: toLowerCase_def)
  then have "take 3 (toLowerCase mon) = toLowerCase mon"
    by simp
  then show ?thesis
    using assms by (simp add: date_of_match_def)
qed

lemma first_digits_all: "ds \<noteq> [] \<Longrightarrow> list_all is_digit ds \<Longrightarrow> first_digits ds = Some ds"
proof -
  assume a: "ds \<noteq> []" "list_all is_digit ds"
  then have f1: "dropWhile (\<lambda>c. \<not> is_digit c) ds = ds"
    by (cases ds) simp_all
  have f2: "takeWhile is_digit ds = ds"
    using a(2) by (simp add: list_all_iff takeWhile_eq_all_conv)
  show ?thesis
    unfolding first_digits_def Let_def f1 f2 using a(1) by simp
qed

lemma parseInt_nonneg: "0 \<le> parseInt ds"
  by (simp add: parseInt_def)

lemma new_Date3_clip:
  "new_Date3 (Some 2025) (Some m) (Some d) = time_clip (make_day 2025 m d * msPerDay)"
  by (simp add: new_Date3_def)

lemma time_clip_valid:
  "time_clip t \<noteq> InvalidDate \<Longrightarrow> \<bar>t\<bar> \<le> 8640000000000000 \<and> time_clip t = Time t"
  by (simp add: time_clip_def split: if_splits)

text \<open>A range whose end lies before its start is empty.\<close>

lemma date_walk_reversed:
  assumes "getMonth (new_Date3 (Some 2025) (Some m) (Some d1)) = Some m"
    and "0 \<le> m" "m < 12" "0 \<le> d2" "d2 < d1"
  shows "date_walk (new_Date3 (Some 2025) (Some m) (Some d1))
           (new_Date3 (Some 2025) (getMonth (new_Date3 (Some 2025) (Some m) (Some d1))) (Some d2)) = []"
proof -
  define base where "base = make_day 2025 m 0"
  have md1: "make_day 2025 m d1 = base + d1" and md2: "make_day 2025 m d2 = base + d2"
    unfolding base_def by (rule make_day_2025(1) [OF assms(2,3)])+
  have lo: "20088 \<le> base"
    unfolding base_def by (rule make_day_2025(2) [OF assms(2,3)])
  have "time_clip ((base + d1) * msPerDay) \<noteq> InvalidDate"
    using assms(1) by (auto simp: getMonth_def new_Date3_clip md1)
  then have v1: "\<bar>(base + d1) * msPerDay\<bar> \<le> 8640000000000000"
    and s: "time_clip ((base + d1) * msPerDay) = Time ((base + d1) * msPerDay)"
    using time_clip_valid by blast+
  have "0 \<le> (base + d2) * msPerDay" and "(base + d2) * msPerDay \<le> (base + d1) * msPerDay"
    using lo assms(4,5) by (simp_all add: msPerDay_def)
  then have v2: "\<bar>(base + d2) * msPerDay\<bar> \<le> 8640000000000000"
    using v1 by linarith
  then have e: "time_clip ((base + d2) * msPerDay) = Time ((base + d2) * msPerDay)"
    by (simp add: time_clip_def)
  have "\<not> date_le (Time ((base + d1) * msPerDay)) (Time ((base + d2) * msPerDay))"
    using assms(5) by (simp add: date_le_def msPerDay_def)
  then have "date_walk (Time ((base + d1) * msPerDay)) (Time ((base + d2) * msPerDay)) = []"
    by (rule date_walk_empty)
  then show ?thesis
    unfolding assms(1) unfolding new_Date3_clip md1 md2 s e .
qed

text \<open>
  A range without a pipe is cut at its last dash, here the one between \<open>l\<close> and \<open>r\<close>.
\<close>

lemma parse_range_dash:
  assumes "CHR ''|'' \<notin> set l" "CHR ''|'' \<notin> set r" "CHR ''-'' \<notin> set r" "l \<noteq> []"
  shows "parse_range (l @ ''-'' @ r) =
     (case parseDateWithMonth (js_trim l) of
        None \<Rightarrow> []
      | Some s \<Rightarrow>
          (case parseDateWithMonth (js_trim r) of
             Some e \<Rightarrow> date_walk s e
           | None \<Rightarrow>
               (case first_digits (js_trim r) of
                  None \<Rightarrow> []
                | Some ds \<Rightarrow> date_walk s (new_Date3 (Some 2025) (getMonth s) (Some (parseInt ds))))))"
proof -
  have pos: "lastIndexOf CHR ''-'' (l @ CHR ''-'' # r) = int (length l)"
    by (rule lastIndexOf_last_occurrence [OF assms(3)])
  have gt: "int (length l) > 0"
    using assms(4) by simp
  have tk: "take (nat (int (length l))) (l @ CHR ''-'' # r) = l"
    by simp
  have dr: "drop (nat (int (length l) + 1)) (l @ CHR ''-'' # r) = r"
    by (simp add: nat_add_distrib)
  have np: "CHR ''|'' \<notin> set (l @ CHR ''-'' # r)"
    using assms(1,2) by simp
  have dash: "CHR ''-'' \<in> set (l @ CHR ''-'' # r)"
    by simp
  have "parse_range (l @ CHR ''-'' # r) =
     (case (parseDateWithMonth (js_trim l),
            (case parseDateWithMonth (js_trim r) of
               Some e \<Rightarrow> Some e
             | None \<Rightarrow>
                 (case (first_digits (js_trim r), parseDateWithMonth (js_trim l)) of
                    (Some ds, Some s) \<Rightarrow> Some (new_Date3 (Some 2025) (getMonth s) (Some (parseInt ds)))
                  | _ \<Rightarrow> None))) of
        (Some s, Some e) \<Rightarrow> date_walk s e
      | _ \<Rightarrow> [])"
    unfolding parse_range_def Let_def using np dash gt
    by (simp only: pos tk dr if_True if_False)
  then show ?thesis
    by (simp split: option.splits)
qed

section \<open>Day numbers of a text: auxiliary facts\<close>

lemma bounded_in_refl: "bounded_in s s"
  unfolding bounded_in_def by (rule exI [of _ "[]"], rule exI [of _ "[]"]) simp

lemma bounded_in_trans:
  assumes "bounded_in x y" "bounded_in y z"
  shows "bounded_in x z"
proof -
  from assms(1) obtain p q where y: "y = p @ x @ q"
    and p: "p = [] \<or> \<not> is_digit (last p)" and q: "q = [] \<or> \<not> is_digit (hd q)"
    unfolding bounded_in_def by blast
  from assms(2) obtain p' q' where z: "z = p' @ y @ q'"
    and p': "p' = [] \<or> \<not> is_digit (last p')" and q': "q' = [] \<or> \<not> is_digit (hd q')"
    unfolding bounded_in_def by blast
  have "z = (p' @ p) @ x @ (q @ q')"
    by (simp add: y z)
  moreover have "p' @ p = [] \<or> \<not> is_digit (last (p' @ p))"
    using p p' by (cases "p = []") simp_all
  moreover have "q @ q' = [] \<or> \<not> is_digit (hd (q @ q'))"
    using q q' by (cases "q = []") simp_all
  ultimately show ?thesis
    unfolding bounded_in_def by blast
qed

lemma takeWhile_last: "takeWhile P s \<noteq> [] \<Longrightarrow> P (last (takeWhile P s))"
  using set_takeWhileD [of "last (takeWhile P s)" P s] by simp

lemma ws_not_digit: "is_ws c \<Longrightarrow> \<not> is_digit c"
  by (auto simp: is_ws_def is_digit_def)

lemma bounded_in_trim: "bounded_in (js_trim s) s"
proof -
  define t where "t = dropWhile is_ws s"
  define p where "p = takeWhile is_ws s"
  define q where "q = rev (takeWhile is_ws (rev t))"
  have "t = rev (takeWhile is_ws (rev t) @ dropWhile is_ws (rev t))"
    by (simp only: takeWhile_dropWhile_id rev_rev_ident)
  also have "\<dots> = rev (dropWhile is_ws (rev t)) @ rev (takeWhile is_ws (rev t))"
    by (simp only: rev_append)
  finally have t: "t = js_trim s @ q"
    unfolding js_trim_def q_def t_def .
  have "s = p @ t"
    by (simp add: p_def t_def)
  then have s: "s = p @ js_trim s @ q"
    using t by simp
  have bp: "p = [] \<or> \<not> is_digit (last p)"
    using takeWhile_last [of is_ws s] ws_not_digit by (auto simp: p_def)
  have bq: "q = [] \<or> \<not> is_digit (hd q)"
  proof (cases "takeWhile is_ws (rev t) = []")
    case True
    then show ?thesis by (simp add: q_def)
  next
    case False
    then have "is_ws (last (takeWhile is_ws (rev t)))"
      by (rule takeWhile_last)
    then have "is_ws (hd q)"
      using False by (simp add: q_def hd_rev)
    then show ?thesis
      using ws_not_digit by blast
  qed
  show ?thesis
    unfolding bounded_in_def using s bp bq by blast
qed

lemma split_on_pieces:
  "(\<exists>q. s = hd (split_on c s) @ q \<and> (q = [] \<or> hd q = c))
   \<and> (\<forall>x \<in> set (tl (split_on c s)). \<exists>p q. s = p @ x @ q \<and> p \<noteq> [] \<and> last p = c \<and> (q = [] \<or> hd q = c))"
proof (induction s)
  case Nil
  show ?case by simp
next
  case (Cons a s)
  from Cons.IH obtain q0 where h: "s = hd (split_on c s) @ q0" and hq: "q0 = [] \<or> hd q0 = c"
    by blast
  from Cons.IH have t: "\<forall>x \<in> set (tl (split_on c s)).
      \<exists>p q. s = p @ x @ q \<and> p \<noteq> [] \<and> last p = c \<and> (q = [] \<or> hd q = c)"
    by blast
  obtain p0 ps where sp: "split_on c s = p0 # ps"
    using split_on_nonempty [of c s] by (cases "split_on c s") auto
  show ?case
  proof (cases "a = c")
    case True
    then have eq: "split_on c (a # s) = [] # p0 # ps"
      by (simp add: sp)
    have 1: "\<exists>q. a # s = hd (split_on c (a # s)) @ q \<and> (q = [] \<or> hd q = c)"
      using True by (simp add: eq)
    have 2: "\<exists>p q. a # s = p @ x @ q \<and> p \<noteq> [] \<and> last p = c \<and> (q = [] \<or> hd q = c)"
      if "x \<in> set (p0 # ps)" for x
    proof (cases "x = p0")
      case True
      have "a # s = [a] @ x @ q0"
        using h sp True by simp
      then show ?thesis
        using hq \<open>a = c\<close> by (intro exI [of _ "[a]"] exI [of _ q0]) simp
    next
      case False
      then have "x \<in> set (tl (split_on c s))"
        using that sp by simp
      then obtain p q where "s = p @ x @ q" "p \<noteq> []" "last p = c" "q = [] \<or> hd q = c"
        using t by blast
      then show ?thesis
        by (intro exI [of _ "a # p"] exI [of _ q]) simp
    qed
    show ?thesis
      unfolding eq using 1 2 unfolding eq by simp
  next
    case False
    then have eq: "split_on c (a # s) = (a # p0) # ps"
      by (simp add: sp)
    have "s = p0 @ q0"
      using h sp by simp
    then have 1: "\<exists>q. a # s = hd (split_on c (a # s)) @ q \<and> (q = [] \<or> hd q = c)"
      unfolding eq using hq by (intro exI [of _ q0]) simp
    have 2: "\<exists>p q. a # s = p @ x @ q \<and> p \<noteq> [] \<and> last p = c \<and> (q = [] \<or> hd q = c)"
      if "x \<in> set ps" for x
    proof -
      have "x \<in> set (tl (split_on c s))"
        using that sp by simp
      then obtain p q where "s = p @ x @ q" "p \<noteq> []" "last p = c" "q = [] \<or> hd q = c"
        using t by blast
      then show ?thesis
        by (intro exI [of _ "a # p"] exI [of _ q]) simp
    qed
    show ?thesis
      unfolding eq using 1 2 unfolding eq by simp
  qed
qed

lemma bounded_in_split:
  assumes "x \<in> set (split_on c s)" "\<not> is_digit c"
  shows "bounded_in x s"
proof -
  obtain p0 ps where sp: "split_on c s = p0 # ps"
    using split_on_nonempty [of c s] by (cases "split_on c s") auto
  show ?thesis
  proof (cases "x = p0")
    case True
    then obtain q where "s = x @ q" "q = [] \<or> hd q = c"
      using split_on_pieces [of s c] sp by auto
    then have "s = [] @ x @ q \<and> ([] = [] \<or> \<not> is_digit (last [])) \<and> (q = [] \<or> \<not> is_digit (hd q))"
      using assms(2) by auto
    then show ?thesis
      unfolding bounded_in_def by blast
  next
    case False
    then have "x \<in> set (tl (split_on c s))"
      using assms(1) sp by simp
    then obtain p q where "s = p @ x @ q" "p \<noteq> []" "last p = c" "q = [] \<or> hd q = c"
      using split_on_pieces [of s c] by blast
    then have "s = p @ x @ q \<and> (p = [] \<or> \<not> is_digit (last p)) \<and> (q = [] \<or> \<not> is_digit (hd q))"
      using assms(2) by auto
    then show ?thesis
      unfolding bounded_in_def by blast
  qed
qed

lemma bounded_in_sides:
  assumes "\<not> is_digit c"
  shows "bounded_in l (l @ c # r)" and "bounded_in r (l @ c # r)"
proof -
  have "l @ c # r = [] @ l @ (c # r)"
    by simp
  then show "bounded_in l (l @ c # r)"
    unfolding bounded_in_def using assms by (intro exI [of _ "[]"] exI [of _ "c # r"]) simp
  have "l @ c # r = (l @ [c]) @ r @ []"
    by simp
  then show "bounded_in r (l @ c # r)"
    unfolding bounded_in_def using assms by (intro exI [of _ "l @ [c]"] exI [of _ "[]"]) simp
qed

lemma lastIndexOf_cut:
  assumes "0 \<le> lastIndexOf c s"
  shows "s = take (nat (lastIndexOf c s)) s @ c # drop (nat (lastIndexOf c s + 1)) s"
proof -
  define k where "k = dropWhile (\<lambda>x. x \<noteq> c) (rev s)"
  have "k \<noteq> []"
  proof
    assume "k = []"
    then have "lastIndexOf c s = - 1"
      unfolding lastIndexOf_def k_def [symmetric] by simp
    then show False
      using assms by simp
  qed
  then obtain a r where k: "k = a # r"
    by (cases k) auto
  have "\<not> (hd k \<noteq> c)"
    unfolding k_def by (rule hd_dropWhile) (use \<open>k \<noteq> []\<close> in \<open>simp add: k_def\<close>)
  then have a: "a = c"
    by (simp add: k)
  have idx: "lastIndexOf c s = int (length r)"
    unfolding lastIndexOf_def k_def [symmetric] k by simp
  have "rev s = takeWhile (\<lambda>x. x \<noteq> c) (rev s) @ c # r"
    using k a takeWhile_dropWhile_id [of "\<lambda>x. x \<noteq> c" "rev s"] by (simp add: k_def)
  then have "rev (rev s) = rev (takeWhile (\<lambda>x. x \<noteq> c) (rev s) @ c # r)"
    by simp
  then have s: "s = rev r @ c # rev (takeWhile (\<lambda>x. x \<noteq> c) (rev s))"
    by simp
  define u where "u = rev (takeWhile (\<lambda>x. x \<noteq> c) (rev s))"
  have s': "s = rev r @ c # u"
    using s by (simp add: u_def)
  have tk: "take (length r) s = rev r"
    by (subst s') simp
  have dr: "drop (Suc (length r)) s = u"
    by (subst s') simp
  have n1: "nat (lastIndexOf c s) = length r"
    by (simp add: idx)
  have n2: "nat (lastIndexOf c s + 1) = Suc (length r)"
    by (simp add: idx nat_add_distrib)
  show ?thesis
    unfolding n1 n2 tk dr by (rule s')
qed

lemma regex_search_suffix:
  "regex_search m s = Some r \<Longrightarrow> \<exists>pre suf. s = pre @ suf \<and> m suf = Some r"
proof (induction s)
  case Nil
  then show ?case by simp
next
  case (Cons c cs)
  show ?case
  proof (cases "m (c # cs)")
    case (Some r')
    then have "m (c # cs) = Some r"
      using Cons.prems by simp
    then have "c # cs = [] @ (c # cs) \<and> m (c # cs) = Some r"
      by simp
    then show ?thesis by blast
  next
    case None
    then have "regex_search m cs = Some r"
      using Cons.prems by simp
    then obtain pre suf where "cs = pre @ suf" "m suf = Some r"
      using Cons.IH by blast
    then have "c # cs = (c # pre) @ suf \<and> m suf = Some r"
      by simp
    then show ?thesis by blast
  qed
qed

lemma dropWhile_boundary: "dropWhile P s = [] \<or> \<not> P (hd (dropWhile P s))"
  using hd_dropWhile [of P s] by blast

lemma month_day_at_parts:
  assumes "month_day_at dot s = Some (mn, ds)"
  shows "toLowerCase mn \<in> set (map fst monthMap)" and "ds \<noteq> []" and "list_all is_digit ds"
    and "bounded_in ds s"
proof -
  define r where "r = drop 3 s"
  define r1 where "r1 = (case r of c # cs \<Rightarrow> if dot \<and> c = CHR ''.'' then cs else r | [] \<Rightarrow> r)"
  define sp where "sp = takeWhile is_ws r1"
  define rest where "rest = dropWhile is_digit (dropWhile is_ws r1)"
  from assms have mon: "toLowerCase (take 3 s) \<in> set (map fst monthMap)"
    and sp_ne: "sp \<noteq> []" and ds_ne: "takeWhile is_digit (dropWhile is_ws r1) \<noteq> []"
    and mn: "mn = take 3 s" and ds: "ds = takeWhile is_digit (dropWhile is_ws r1)"
    unfolding month_day_at_def Let_def r_def r1_def sp_def
    by (simp_all split: if_splits)
  show "toLowerCase mn \<in> set (map fst monthMap)"
    using mon mn by simp
  show "ds \<noteq> []"
    using ds ds_ne by simp
  show "list_all is_digit ds"
    using set_takeWhileD [of _ is_digit] by (auto simp: ds list_all_iff)
  have "\<exists>dp. r = dp @ r1"
  proof (cases r)
    case Nil
    then show ?thesis by (simp add: r1_def)
  next
    case (Cons a as)
    show ?thesis
    proof (cases "dot \<and> a = CHR ''.''")
      case True
      then have "r = [a] @ r1"
        using Cons by (simp add: r1_def)
      then show ?thesis by blast
    next
      case False
      then have "r = [] @ r1"
        using Cons by (auto simp: r1_def)
      then show ?thesis by blast
    qed
  qed
  then obtain dp where r: "r = dp @ r1"
    by blast
  have "r1 = sp @ dropWhile is_ws r1"
    by (simp add: sp_def)
  moreover have "dropWhile is_ws r1 = ds @ rest"
    by (simp add: ds rest_def)
  moreover have "s = take 3 s @ r"
    by (simp add: r_def)
  ultimately have "s = (take 3 s @ dp @ sp) @ ds @ rest"
    using r by (metis append.assoc)
  moreover have "\<not> is_digit (last (take 3 s @ dp @ sp))"
    using sp_ne takeWhile_last [of is_ws r1] ws_not_digit by (simp add: sp_def)
  moreover have "rest = [] \<or> \<not> is_digit (hd rest)"
    unfolding rest_def by (rule dropWhile_boundary)
  ultimately show "bounded_in ds s"
    unfolding bounded_in_def by blast
qed

lemma bounded_in_append_left:
  assumes "bounded_in x suf" "x \<noteq> []" "list_all is_digit x" "\<not> is_digit (last (pre @ [c]))"
    "suf = c # suf'"
  shows "bounded_in x (pre @ suf)"
proof -
  from assms(1) obtain p q where s: "suf = p @ x @ q"
    and p: "p = [] \<or> \<not> is_digit (last p)" and q: "q = [] \<or> \<not> is_digit (hd q)"
    unfolding bounded_in_def by blast
  have "p \<noteq> []"
  proof
    assume "p = []"
    then have "hd suf = hd x"
      using s assms(2) by simp
    then have "is_digit c"
      using assms(2,3,5) by (cases x) (auto simp: list_all_iff)
    then show False
      using assms(4) by simp
  qed
  then have "\<not> is_digit (last (pre @ p))"
    using p by simp
  moreover have "pre @ suf = (pre @ p) @ x @ q"
    using s by simp
  ultimately show ?thesis
    unfolding bounded_in_def using q by blast
qed

lemma regex_month_day_parts:
  assumes "regex_search (month_day_at dot) s = Some (mn, ds)"
  shows "toLowerCase mn \<in> set (map fst monthMap)" and "ds \<noteq> []" and "list_all is_digit ds"
    and "bounded_in ds s"
proof -
  from regex_search_suffix [OF assms] obtain pre suf where s: "s = pre @ suf"
    and m: "month_day_at dot suf = Some (mn, ds)"
    by blast
  show n: "toLowerCase mn \<in> set (map fst monthMap)" and ne: "ds \<noteq> []" and dg: "list_all is_digit ds"
    using month_day_at_parts(1,2,3) [OF m] by simp_all
  have b: "bounded_in ds suf"
    by (rule month_day_at_parts(4) [OF m])
  have mn: "mn = take 3 suf"
    using m by (simp add: month_day_at_def Let_def split: if_splits)
  have "length mn = 3"
    by (rule month_name_chars(1) [OF n])
  then obtain c suf' where suf: "suf = c # suf'" and c: "c \<in> set mn"
    using mn by (cases suf) auto
  have "\<not> is_digit c"
    by (rule month_name_plain(2) [OF n c])
  then have "\<not> is_digit (last (pre @ [c]))"
    by simp
  then show "bounded_in ds s"
    unfolding s by (rule bounded_in_append_left [OF b ne dg _ suf])
qed

lemma first_digits_parts:
  assumes "first_digits s = Some ds"
  shows "ds \<noteq> []" and "list_all is_digit ds" and "bounded_in ds s"
proof -
  define p where "p = takeWhile (\<lambda>c. \<not> is_digit c) s"
  define t where "t = dropWhile (\<lambda>c. \<not> is_digit c) s"
  define rest where "rest = dropWhile is_digit t"
  from assms have ds: "ds = takeWhile is_digit t" and ne: "takeWhile is_digit t \<noteq> []"
    unfolding first_digits_def Let_def t_def by (simp_all split: if_splits)
  show "ds \<noteq> []"
    using ds ne by simp
  show "list_all is_digit ds"
    using set_takeWhileD [of _ is_digit] by (auto simp: ds list_all_iff)
  have "s = p @ t"
    by (simp add: p_def t_def)
  moreover have "t = ds @ rest"
    by (simp add: ds rest_def)
  ultimately have "s = p @ ds @ rest"
    by simp
  moreover have "p = [] \<or> \<not> is_digit (last p)"
    using takeWhile_last [of "\<lambda>c. \<not> is_digit c" s] by (auto simp: p_def)
  moreover have "rest = [] \<or> \<not> is_digit (hd rest)"
    unfolding rest_def by (rule dropWhile_boundary)
  ultimately show "bounded_in ds s"
    unfolding bounded_in_def by blast
qed

text \<open>A run of digits with no digit before or after it is one of the numbers of the text.\<close>

lemma digit_runs_member:
  "s = p @ x @ q \<Longrightarrow> x \<noteq> [] \<Longrightarrow> list_all is_digit x \<Longrightarrow> p = [] \<or> \<not> is_digit (last p) \<Longrightarrow>
   q = [] \<or> \<not> is_digit (hd q) \<Longrightarrow> x \<in> set (digit_runs s)"
proof (induction s arbitrary: p rule: digit_runs.induct)
  case 1
  then show ?case by simp
next
  case (2 c cs)
  show ?case
  proof (cases p)
    case Nil
    then have x: "c # cs = x @ q"
      using "2.prems" by simp
    then have "is_digit c"
      using "2.prems"(2,3) by (cases x) (auto simp: list_all_iff)
    moreover have "takeWhile is_digit (x @ q) = x @ takeWhile is_digit q"
      using "2.prems"(3) by (intro takeWhile_append2) (simp add: list_all_iff)
    then have "takeWhile is_digit (c # cs) = x"
      using "2.prems"(5) x by (cases q) auto
    ultimately show ?thesis
      by simp
  next
    case (Cons a p')
    then have a: "a = c" and cs: "cs = p' @ x @ q"
      using "2.prems"(1) by simp_all
    have lastp: "\<not> is_digit (last (c # p'))"
      using "2.prems"(4) Cons a by simp
    show ?thesis
    proof (cases "is_digit c")
      case False
      have "p' = [] \<or> \<not> is_digit (last p')"
        using lastp by (cases "p' = []") simp_all
      then have "x \<in> set (digit_runs cs)"
        using "2.IH"(2) [OF False cs "2.prems"(2,3) _ "2.prems"(5)] by simp
      then show ?thesis
        using False by simp
    next
      case True
      then have p'ne: "p' \<noteq> []"
        using lastp by auto
      then have lp: "\<not> is_digit (last p')"
        using lastp by simp
      have "last p' \<in> set p'"
        using p'ne by simp
      then have dw: "dropWhile is_digit (p' @ x @ q) = dropWhile is_digit p' @ x @ q"
        using lp by (intro dropWhile_append1)
      have "dropWhile is_digit p' \<noteq> []"
        using lp \<open>last p' \<in> set p'\<close> by (auto simp: dropWhile_eq_Nil_conv)
      moreover have "p' = takeWhile is_digit p' @ dropWhile is_digit p'"
        by simp
      ultimately have "last (dropWhile is_digit p') = last p'"
        by (metis last_appendR)
      then have "dropWhile is_digit p' = [] \<or> \<not> is_digit (last (dropWhile is_digit p'))"
        using lp by simp
      then have "x \<in> set (digit_runs (dropWhile is_digit cs))"
        using "2.IH"(1) [OF True _ "2.prems"(2,3) _ "2.prems"(5), of "dropWhile is_digit p'"]
        by (simp add: cs dw)
      then show ?thesis
        using True by simp
    qed
  qed
qed

lemma bounded_digits_are_runs:
  assumes "bounded_in x s" "x \<noteq> []" "list_all is_digit x"
  shows "x \<in> set (digit_runs s)"
proof -
  from assms(1) obtain p q where "s = p @ x @ q" "p = [] \<or> \<not> is_digit (last p)"
    "q = [] \<or> \<not> is_digit (hd q)"
    unfolding bounded_in_def by blast
  then show ?thesis
    using assms(2,3) by (intro digit_runs_member [of s p x q]) simp_all
qed

section \<open>The season year: auxiliary facts\<close>

lemma in_2025_new_Date:
  assumes "0 \<le> m" "m < 12" "1 \<le> d" "d \<le> 31"
  shows "in_2025 (new_Date3 (Some 2025) (Some m) (Some d))"
proof -
  have e: "new_Date3 (Some 2025) (Some m) (Some d) = Time ((make_day 2025 m 0 + d) * 86400000)"
    using assms by (intro new_Date3_2025) simp_all
  have "20089 \<le> make_day 2025 m 0 + d" and "make_day 2025 m 0 + d \<le> 20453"
    using make_day_2025(2,3) [OF assms(1,2)] assms(3,4) by simp_all
  then have "20089 * 86400000 \<le> (make_day 2025 m 0 + d) * 86400000"
    and "(make_day 2025 m 0 + d) * 86400000 < 20454 * 86400000"
    by simp_all
  then show ?thesis
    unfolding in_2025_def e msPerDay_def by blast
qed

lemma in_2025_day:
  assumes "20089 * 86400000 \<le> (t::int)" "t < 20454 * 86400000"
  shows "20089 \<le> t div 86400000" and "t div 86400000 \<le> 20453"
proof -
  have "(20089 * 86400000) div 86400000 \<le> t div (86400000::int)"
    using assms(1) by (intro zdiv_mono1) simp_all
  then show "20089 \<le> t div 86400000"
    by simp
  have "t div 86400000 \<le> (20454 * 86400000 - 1) div (86400000::int)"
    using assms(2) by (intro zdiv_mono1) simp_all
  then show "t div 86400000 \<le> 20453"
    by simp
qed

lemma in_2025_fields:
  assumes "in_2025 d"
  shows "getFullYear d = Some 2025" and "\<exists>m. getMonth d = Some m \<and> 0 \<le> m \<and> m < 12"
proof -
  from assms obtain t where d: "d = Time t" and "20089 * 86400000 \<le> t" "t < 20454 * 86400000"
    unfolding in_2025_def msPerDay_def by blast
  then have "20089 \<le> t div 86400000" and "t div 86400000 \<le> 20453"
    using in_2025_day by blast+
  then have c: "fst (civil_from_days (t div 86400000)) = 2025
      \<and> 1 \<le> fst (snd (civil_from_days (t div 86400000)))
      \<and> fst (snd (civil_from_days (t div 86400000))) \<le> 12"
    by (rule civil_2025)
  show "getFullYear d = Some 2025"
    using c by (simp add: d getFullYear_def msPerDay_def)
  show "\<exists>m. getMonth d = Some m \<and> 0 \<le> m \<and> m < 12"
    using c by (simp add: d getMonth_def msPerDay_def)
qed

lemma in_2025_walk:
  assumes "in_2025 a" "in_2025 b" "x \<in> set (date_walk a b)"
  shows "in_2025 x"
proof -
  from date_walk_between [OF assms(3)] obtain t ta tb where
    "x = Time t" "a = Time ta" "b = Time tb" "ta \<le> t" "t \<le> tb"
    by blast
  then show ?thesis
    using assms(1,2) unfolding in_2025_def by auto
qed

lemma in_2025_match:
  assumes days: "\<forall>ds \<in> set (digit_runs s). 1 \<le> parseInt ds \<and> parseInt ds \<le> 31"
    and x: "bounded_in x s"
    and d: "date_of_match (regex_search (month_day_at dot) x) = Some d"
  shows "in_2025 d"
proof -
  from d obtain mn ds m where r: "regex_search (month_day_at dot) x = Some (mn, ds)"
    and m: "map_of monthMap (take 3 (toLowerCase mn)) = Some m"
    and dd: "d = new_Date3 (Some 2025) (Some m) (Some (parseInt ds))"
    unfolding date_of_match_def by (auto split: option.splits)
  have "bounded_in ds s"
    using regex_month_day_parts(4) [OF r] x by (rule bounded_in_trans)
  then have "ds \<in> set (digit_runs s)"
    using regex_month_day_parts(2,3) [OF r] by (intro bounded_digits_are_runs)
  then have "1 \<le> parseInt ds" "parseInt ds \<le> 31"
    using days by blast+
  then show ?thesis
    unfolding dd using monthMap_range(1,2) [OF m] by (intro in_2025_new_Date)
qed

lemma in_2025_bare_day:
  assumes days: "\<forall>ds \<in> set (digit_runs s). 1 \<le> parseInt ds \<and> parseInt ds \<le> 31"
    and x: "bounded_in x s"
    and f: "first_digits x = Some ds"
    and st: "in_2025 st"
  shows "in_2025 (new_Date3 (Some 2025) (getMonth st) (Some (parseInt ds)))"
proof -
  have "bounded_in ds s"
    using first_digits_parts(3) [OF f] x by (rule bounded_in_trans)
  then have "ds \<in> set (digit_runs s)"
    using first_digits_parts(1,2) [OF f] by (intro bounded_digits_are_runs)
  then have r: "1 \<le> parseInt ds" "parseInt ds \<le> 31"
    using days by blast+
  obtain m where m: "getMonth st = Some m" "0 \<le> m" "m < 12"
    using in_2025_fields(2) [OF st] by blast
  show ?thesis
    unfolding m(1) using m(2,3) r by (intro in_2025_new_Date)
qed

lemma pipe_not_digit: "\<not> is_digit CHR ''|''" and dash_not_digit: "\<not> is_digit CHR ''-''"
  and comma_not_digit: "\<not> is_digit CHR '',''"
  by (simp_all add: is_digit_def)

text \<open>The three branches of \<open>parse_range\<close>, read backwards from a date they produce.\<close>

lemma parse_range_pipe_eq:
  "CHR ''|'' \<in> set r \<Longrightarrow>
   parse_range r =
     (case map js_trim (split_on CHR ''|'' r) of
        startStr # endStr # _ \<Rightarrow>
          if startStr \<noteq> [] \<and> endStr \<noteq> [] then
            (case (parseSimpleDate startStr, parseSimpleDate endStr) of
               (Some startDate, Some endDate) \<Rightarrow> date_walk startDate endDate
             | _ \<Rightarrow> [])
          else []
      | _ \<Rightarrow> [])"
  unfolding parse_range_def by (simp only: if_True)

lemma parse_range_pipe:
  assumes "CHR ''|'' \<in> set r" "d \<in> set (parse_range r)"
  shows "\<exists>a b rest sd ed. map js_trim (split_on CHR ''|'' r) = a # b # rest
      \<and> parseSimpleDate a = Some sd \<and> parseSimpleDate b = Some ed \<and> d \<in> set (date_walk sd ed)"
proof -
  define ps where "ps = map js_trim (split_on CHR ''|'' r)"
  have pr: "parse_range r =
     (case ps of
        startStr # endStr # _ \<Rightarrow>
          if startStr \<noteq> [] \<and> endStr \<noteq> [] then
            (case (parseSimpleDate startStr, parseSimpleDate endStr) of
               (Some startDate, Some endDate) \<Rightarrow> date_walk startDate endDate
             | _ \<Rightarrow> [])
          else []
      | _ \<Rightarrow> [])"
    unfolding ps_def by (rule parse_range_pipe_eq [OF assms(1)])
  have d: "d \<in> set (parse_range r)"
    by (rule assms(2))
  have "\<exists>a b rest sd ed. ps = a # b # rest
      \<and> parseSimpleDate a = Some sd \<and> parseSimpleDate b = Some ed \<and> d \<in> set (date_walk sd ed)"
  proof (cases ps)
    case Nil
    then have "parse_range r = []"
      unfolding pr by simp
    then show ?thesis
      using d by simp
  next
    case c1: (Cons a t)
    show ?thesis
    proof (cases t)
      case Nil
      then have "parse_range r = []"
        unfolding pr c1 by simp
      then show ?thesis
        using d by simp
    next
      case c2: (Cons b rest)
      show ?thesis
      proof (cases "parseSimpleDate a")
        case None
        then have "parse_range r = []"
          by (simp add: pr c1 c2)
        then show ?thesis
          using d by simp
      next
        case sd: (Some sd)
        show ?thesis
        proof (cases "parseSimpleDate b")
          case None
          then have "parse_range r = []"
            by (simp add: pr c1 c2 sd)
          then show ?thesis
            using d by simp
        next
          case ed: (Some ed)
          have "parse_range r = (if a \<noteq> [] \<and> b \<noteq> [] then date_walk sd ed else [])"
            by (simp add: pr c1 c2 sd ed)
          then have "d \<in> set (date_walk sd ed)"
            using d by (cases "a \<noteq> [] \<and> b \<noteq> []") simp_all
          then show ?thesis
            using c1 c2 sd ed by blast
        qed
      qed
    qed
  qed
  then show ?thesis
    unfolding ps_def .
qed

lemma parse_range_dash_parts:
  assumes "CHR ''|'' \<notin> set r" "CHR ''-'' \<in> set r" "d \<in> set (parse_range r)"
  shows "0 < lastIndexOf CHR ''-'' r
      \<and> (\<exists>sd ed. parseDateWithMonth (js_trim (take (nat (lastIndexOf CHR ''-'' r)) r)) = Some sd
            \<and> (parseDateWithMonth (js_trim (drop (nat (lastIndexOf CHR ''-'' r + 1)) r)) = Some ed
                \<or> (\<exists>ds. first_digits (js_trim (drop (nat (lastIndexOf CHR ''-'' r + 1)) r)) = Some ds
                      \<and> ed = new_Date3 (Some 2025) (getMonth sd) (Some (parseInt ds))))
            \<and> d \<in> set (date_walk sd ed))"
proof -
  define k where "k = lastIndexOf CHR ''-'' r"
  define l where "l = js_trim (take (nat k) r)"
  define e where "e = js_trim (drop (nat (k + 1)) r)"
  have pr: "parse_range r =
      (if k > 0 then
         (case (parseDateWithMonth l,
                (case parseDateWithMonth e of
                   Some x \<Rightarrow> Some x
                 | None \<Rightarrow>
                     (case (first_digits e, parseDateWithMonth l) of
                        (Some ds, Some s) \<Rightarrow> Some (new_Date3 (Some 2025) (getMonth s) (Some (parseInt ds)))
                      | _ \<Rightarrow> None))) of
            (Some s, Some x) \<Rightarrow> date_walk s x
          | _ \<Rightarrow> [])
       else [])"
    using assms(1,2) unfolding parse_range_def Let_def k_def l_def e_def by simp
  have pos: "k > 0"
  proof (rule ccontr)
    assume "\<not> k > 0"
    then have "parse_range r = []"
      by (simp add: pr)
    then show False
      using assms(3) by simp
  qed
  have "\<exists>sd ed. parseDateWithMonth l = Some sd
            \<and> (parseDateWithMonth e = Some ed
                \<or> (\<exists>ds. first_digits e = Some ds
                      \<and> ed = new_Date3 (Some 2025) (getMonth sd) (Some (parseInt ds))))
            \<and> d \<in> set (date_walk sd ed)"
  proof (cases "parseDateWithMonth l")
    case None
    then have "parse_range r = []"
      by (simp add: pr split: option.splits)
    then show ?thesis
      using assms(3) by simp
  next
    case sd: (Some sd)
    show ?thesis
    proof (cases "parseDateWithMonth e")
      case (Some ed)
      then have "parse_range r = date_walk sd ed"
        using pos by (simp add: pr sd)
      then have "d \<in> set (date_walk sd ed)"
        using assms(3) by simp
      then show ?thesis
        using sd Some by blast
    next
      case None
      show ?thesis
      proof (cases "first_digits e")
        case fn: None
        then have "parse_range r = []"
          using None by (simp add: pr sd)
        then show ?thesis
          using assms(3) by simp
      next
        case (Some ds)
        then have "parse_range r = date_walk sd (new_Date3 (Some 2025) (getMonth sd) (Some (parseInt ds)))"
          using None pos by (simp add: pr sd)
        then have "d \<in> set (date_walk sd (new_Date3 (Some 2025) (getMonth sd) (Some (parseInt ds))))"
          using assms(3) by simp
        then show ?thesis
          using sd Some by blast
      qed
    qed
  qed
  then show ?thesis
    using pos unfolding k_def l_def e_def by blast
qed

lemma parse_range_single:
  assumes "CHR ''|'' \<notin> set r" "CHR ''-'' \<notin> set r" "d \<in> set (parse_range r)"
  shows "parseDateWithMonth r = Some d"
proof -
  have pr: "parse_range r = (case parseDateWithMonth r of Some singleDate \<Rightarrow> [singleDate] | None \<Rightarrow> [])"
    unfolding parse_range_def using assms(1,2) by (simp only: if_False)
  show ?thesis
  proof (cases "parseDateWithMonth r")
    case None
    then have "parse_range r = []"
      by (simp add: pr)
    then show ?thesis
      using assms(3) by simp
  next
    case (Some x)
    then have "parse_range r = [x]"
      by (simp add: pr)
    then show ?thesis
      using assms(3) Some by simp
  qed
qed

lemma in_2025_range:
  assumes days: "\<forall>ds \<in> set (digit_runs s). 1 \<le> parseInt ds \<and> parseInt ds \<le> 31"
    and r: "bounded_in r s"
    and d: "d \<in> set (parse_range r)"
  shows "in_2025 d"
proof (cases "CHR ''|'' \<in> set r")
  case True
  have piece: "bounded_in y s" if "y \<in> set (map js_trim (split_on CHR ''|'' r))" for y
  proof -
    from that obtain y0 where "y0 \<in> set (split_on CHR ''|'' r)" and y: "y = js_trim y0"
      by auto
    then have "bounded_in y0 r"
      using pipe_not_digit by (intro bounded_in_split)
    then have "bounded_in y0 s"
      using r by (rule bounded_in_trans)
    with bounded_in_trim [of y0] show ?thesis
      unfolding y by (rule bounded_in_trans)
  qed
  from parse_range_pipe [OF True d] obtain a b rest sd ed
    where ps: "map js_trim (split_on CHR ''|'' r) = a # b # rest"
    and sd: "parseSimpleDate a = Some sd" and ed: "parseSimpleDate b = Some ed"
    and w: "d \<in> set (date_walk sd ed)"
    by auto
  have ba: "bounded_in a s" and bb: "bounded_in b s"
    using piece ps by simp_all
  have "in_2025 sd"
    using sd unfolding parseSimpleDate_def by (rule in_2025_match [OF days ba])
  moreover have "in_2025 ed"
    using ed unfolding parseSimpleDate_def by (rule in_2025_match [OF days bb])
  ultimately have "in_2025 sd" and "in_2025 ed"
    by simp_all
  then show ?thesis
    using w by (rule in_2025_walk)
next
  case nopipe: False
  show ?thesis
  proof (cases "CHR ''-'' \<in> set r")
    case True
    define k where "k = lastIndexOf CHR ''-'' r"
    define l where "l = take (nat k) r"
    define e where "e = drop (nat (k + 1)) r"
    from parse_range_dash_parts [OF nopipe True d] obtain sd ed where pos: "k > 0"
      and sd: "parseDateWithMonth (js_trim l) = Some sd"
      and ed: "parseDateWithMonth (js_trim e) = Some ed
          \<or> (\<exists>ds. first_digits (js_trim e) = Some ds
                \<and> ed = new_Date3 (Some 2025) (getMonth sd) (Some (parseInt ds)))"
      and w: "d \<in> set (date_walk sd ed)"
      unfolding k_def l_def e_def by auto
    have cut: "r = l @ CHR ''-'' # e"
      unfolding l_def e_def k_def using lastIndexOf_cut [of "CHR ''-''" r] pos
      by (simp add: k_def)
    have "bounded_in l (l @ CHR ''-'' # e)" and "bounded_in e (l @ CHR ''-'' # e)"
      by (rule bounded_in_sides [OF dash_not_digit])+
    then have "bounded_in l r" and "bounded_in e r"
      unfolding cut [symmetric] by simp_all
    then have ls: "bounded_in l s" and es: "bounded_in e s"
      using r by (auto intro: bounded_in_trans [of _ r s])
    have bl: "bounded_in (js_trim l) s"
      using bounded_in_trim [of l] ls by (rule bounded_in_trans)
    have be: "bounded_in (js_trim e) s"
      using bounded_in_trim [of e] es by (rule bounded_in_trans)
    have s2025: "in_2025 sd"
      using sd unfolding parseDateWithMonth_def by (rule in_2025_match [OF days bl])
    have "in_2025 ed"
      using ed
    proof
      assume "parseDateWithMonth (js_trim e) = Some ed"
      then show ?thesis
        unfolding parseDateWithMonth_def by (rule in_2025_match [OF days be])
    next
      assume "\<exists>ds. first_digits (js_trim e) = Some ds
                \<and> ed = new_Date3 (Some 2025) (getMonth sd) (Some (parseInt ds))"
      then obtain ds where "first_digits (js_trim e) = Some ds"
        and "ed = new_Date3 (Some 2025) (getMonth sd) (Some (parseInt ds))"
        by auto
      then show ?thesis
        using in_2025_bare_day [OF days be _ s2025, of ds] by simp
    qed
    with s2025 show ?thesis
      using w by (rule in_2025_walk)
  next
    case False
    then have "parseDateWithMonth r = Some d"
      using parse_range_single [OF nopipe _ d] by simp
    then show ?thesis
      unfolding parseDateWithMonth_def by (rule in_2025_match [OF days r])
  qed
qed

section \<open>Dash ranges: auxiliary facts\<close>






section \<open>The date filter\<close>

text \<open>
  Claim C6. A record whose \<open>dates\<close> is empty passes the date filter for "today",
  "tomorrow" and "weekend" alike (and for any other kind as well): it is treated as always
  open, whatever the state of the session.
\<close>

theorem empty_dates_always_open:
  "dates m = [] \<Longrightarrow> marketIsOpenOnDate st m kind = Inr True"
  by (simp add: marketIsOpenOnDate_def)

theorem empty_dates_always_open_witness:
  "dates market_B = [] \<and> marketIsOpenOnDate example_state market_B ''weekend'' = Inr True"
proof -
  have h: "dates market_B = []"
    by (simp add: market_B_def)
  show ?thesis
    by (rule conjI [OF h empty_dates_always_open [OF h]])
qed

text \<open>
  Claim C10. \<open>marketIsOpenOnDate\<close> returns a truth value for each of the kinds "today",
  "tomorrow" and "weekend"; with the empty kind \<open>applyFilters\<close> does not call it and the
  date test is true; for any other kind and a record with at least one date it throws the
  \<open>TypeError\<close> of reading a field of the undefined target date.
\<close>

theorem date_filter_kinds:
  "(kind \<in> {''today'', ''tomorrow'', ''weekend''} \<longrightarrow> (\<exists>b. marketIsOpenOnDate st m kind = Inr b))
   \<and> (dateFilter (currentFilters st) = [] \<longrightarrow> matchesDate st m = Inr True)
   \<and> (kind' \<notin> {''today'', ''tomorrow'', ''weekend''} \<and> dates m' \<noteq> [] \<longrightarrow>
        marketIsOpenOnDate st m' kind' = Inl TypeError)"
  by (auto simp: marketIsOpenOnDate_def matchesDate_def)

theorem date_filter_kinds_witness:
  "(\<exists>b. marketIsOpenOnDate example_state market_A ''today'' = Inr b)
   \<and> matchesDate (example_state\<lparr>currentFilters := \<lparr>search = [], city_filter = [], dateFilter = []\<rparr>\<rparr>) market_A = Inr True
   \<and> marketIsOpenOnDate example_state market_A ''next week'' = Inl TypeError"
proof -
  have k: "''today'' \<in> {''today'', ''tomorrow'', ''weekend''}"
    by simp
  have k': "''next week'' \<notin> {''today'', ''tomorrow'', ''weekend''} \<and> dates market_A \<noteq> []"
    by (simp add: market_A_def)
  have e: "dateFilter (currentFilters (example_state\<lparr>currentFilters := \<lparr>search = [], city_filter = [], dateFilter = []\<rparr>\<rparr>)) = []"
    by simp
  from date_filter_kinds [of "''today''" example_state market_A "''next week''" market_A] k k'
  have 1: "\<exists>b. marketIsOpenOnDate example_state market_A ''today'' = Inr b"
    and 3: "marketIsOpenOnDate example_state market_A ''next week'' = Inl TypeError"
    by blast+
  from date_filter_kinds [of "''today''" "example_state\<lparr>currentFilters := \<lparr>search = [], city_filter = [], dateFilter = []\<rparr>\<rparr>" market_A "''next week''" market_A] e
  have 2: "matchesDate (example_state\<lparr>currentFilters := \<lparr>search = [], city_filter = [], dateFilter = []\<rparr>\<rparr>) market_A = Inr True"
    by blast
  show ?thesis
    by (rule conjI [OF 1 conjI [OF 2 3]])
qed

section \<open>Filtering\<close>

text \<open>
  Claim C2. With a date filter of a known kind, \<open>applyFilters\<close> produces a view, and a record
  is in the view if and only if it is an ingested record that passes the search filter (the
  lower-cased search text occurs in its lower-cased name, address or description; the
  empty text occurs everywhere), the city filter (no city chosen, or the record's city is
  the chosen one) and the date filter (no kind chosen, or \<open>marketIsOpenOnDate\<close> holds). In
  particular a record without dates, which passes every date filter, is still left out
  when a city is chosen that is not its own.
\<close>

theorem filtering_is_conjunctive:
  assumes "dateFilter (currentFilters st) \<in> {[], ''today'', ''tomorrow'', ''weekend''}"
  shows "\<exists>st'. applyFilters st = Inr st'
     \<and> (\<forall>m. m \<in> set (filteredMarkets st') \<longleftrightarrow>
           m \<in> set (markets st)
           \<and> (\<exists>pre post.
                 toLowerCase (name m) = pre @ toLowerCase (search (currentFilters st)) @ post
               \<or> toLowerCase (address m) = pre @ toLowerCase (search (currentFilters st)) @ post
               \<or> toLowerCase (description m) = pre @ toLowerCase (search (currentFilters st)) @ post)
           \<and> (city_filter (currentFilters st) = [] \<or> city m = city_filter (currentFilters st))
           \<and> (dateFilter (currentFilters st) = []
               \<or> marketIsOpenOnDate st m (dateFilter (currentFilters st)) = Inr True))
     \<and> (search (currentFilters st) = [] \<longrightarrow>
          (\<forall>m. m \<in> set (filteredMarkets st') \<longleftrightarrow>
             m \<in> set (markets st)
             \<and> (city_filter (currentFilters st) = [] \<or> city m = city_filter (currentFilters st))
             \<and> (dateFilter (currentFilters st) = []
                 \<or> marketIsOpenOnDate st m (dateFilter (currentFilters st)) = Inr True)))
     \<and> (\<forall>m. dates m = [] \<and> city_filter (currentFilters st) \<noteq> []
              \<and> city m \<noteq> city_filter (currentFilters st) \<longrightarrow>
            marketIsOpenOnDate st m (dateFilter (currentFilters st)) = Inr True
            \<and> m \<notin> set (filteredMarkets st'))"
proof -
  let ?pass = "\<lambda>m. matchesSearch st m \<and> matchesCity st m \<and> matchesDate st m = Inr True"
  have f: "filter_markets st (markets st) = Inr (filter ?pass (markets st))"
    using assms by (intro filter_markets_total ballI matchesDate_known_kind)
  define st' where "st' = sortFilteredMarkets (st\<lparr>filteredMarkets := filter ?pass (markets st)\<rparr>)"
  have a: "applyFilters st = Inr st'"
    by (simp add: applyFilters_def f st'_def)
  have v: "set (filteredMarkets st') = {m \<in> set (markets st). ?pass m}"
    by (simp add: st'_def sortFilteredMarkets_def set_array_sort)
  have srch: "matchesSearch st m \<longleftrightarrow>
      (\<exists>pre post.
                 toLowerCase (name m) = pre @ toLowerCase (search (currentFilters st)) @ post
               \<or> toLowerCase (address m) = pre @ toLowerCase (search (currentFilters st)) @ post
               \<or> toLowerCase (description m) = pre @ toLowerCase (search (currentFilters st)) @ post)" for m
    unfolding matchesSearch_def Let_def str_includes_iff by blast
  have srch0: "matchesSearch st m" if "search (currentFilters st) = []" for m
    using that by (cases "toLowerCase (name m)") (simp_all add: matchesSearch_def toLowerCase_def)
  have dt: "matchesDate st m = Inr True \<longleftrightarrow>
      (dateFilter (currentFilters st) = []
               \<or> marketIsOpenOnDate st m (dateFilter (currentFilters st)) = Inr True)" for m
    by (auto simp: matchesDate_def)
  have ct: "matchesCity st m \<longleftrightarrow> (city_filter (currentFilters st) = [] \<or> city m = city_filter (currentFilters st))" for m
    by (simp add: matchesCity_def)
  have 1: "\<forall>m. m \<in> set (filteredMarkets st') \<longleftrightarrow>
           m \<in> set (markets st)
           \<and> (\<exists>pre post.
                 toLowerCase (name m) = pre @ toLowerCase (search (currentFilters st)) @ post
               \<or> toLowerCase (address m) = pre @ toLowerCase (search (currentFilters st)) @ post
               \<or> toLowerCase (description m) = pre @ toLowerCase (search (currentFilters st)) @ post)
           \<and> (city_filter (currentFilters st) = [] \<or> city m = city_filter (currentFilters st))
           \<and> (dateFilter (currentFilters st) = []
               \<or> marketIsOpenOnDate st m (dateFilter (currentFilters st)) = Inr True)"
    by (simp only: v mem_Collect_eq srch dt ct) simp
  have 2: "search (currentFilters st) = [] \<longrightarrow>
          (\<forall>m. m \<in> set (filteredMarkets st') \<longleftrightarrow>
             m \<in> set (markets st)
             \<and> (city_filter (currentFilters st) = [] \<or> city m = city_filter (currentFilters st))
             \<and> (dateFilter (currentFilters st) = []
                 \<or> marketIsOpenOnDate st m (dateFilter (currentFilters st)) = Inr True))"
    using srch0 by (simp add: v dt ct)
  have 3: "\<forall>m. dates m = [] \<and> city_filter (currentFilters st) \<noteq> []
              \<and> city m \<noteq> city_filter (currentFilters st) \<longrightarrow>
            marketIsOpenOnDate st m (dateFilter (currentFilters st)) = Inr True
            \<and> m \<notin> set (filteredMarkets st')"
    by (simp add: v ct marketIsOpenOnDate_def)
  show ?thesis
    by (rule exI [of _ st']) (rule conjI [OF a conjI [OF 1 conjI [OF 2 3]]])
qed

theorem filtering_is_conjunctive_witness:
  "dateFilter (currentFilters example_state) \<in> {[], ''today'', ''tomorrow'', ''weekend''}
   \<and> (\<exists>st'. applyFilters example_state = Inr st'
        \<and> market_A \<in> set (filteredMarkets st') \<and> market_B \<notin> set (filteredMarkets st')
        \<and> marketIsOpenOnDate example_state market_B ''today'' = Inr True)"
proof -
  have h: "dateFilter (currentFilters example_state) \<in> {[], ''today'', ''tomorrow'', ''weekend''}"
    by (simp add: example_state_def)
  from filtering_is_conjunctive [OF h] obtain st' where
    a: "applyFilters example_state = Inr st'"
    and x: "\<forall>m. dates m = [] \<and> city_filter (currentFilters example_state) \<noteq> []
              \<and> city m \<noteq> city_filter (currentFilters example_state) \<longrightarrow>
            marketIsOpenOnDate example_state m (dateFilter (currentFilters example_state)) = Inr True
            \<and> m \<notin> set (filteredMarkets st')"
    by blast
  have "dates market_B = [] \<and> city_filter (currentFilters example_state) \<noteq> []
              \<and> city market_B \<noteq> city_filter (currentFilters example_state)"
    by (simp add: market_B_def example_state_def)
  with x have b: "marketIsOpenOnDate example_state market_B (dateFilter (currentFilters example_state)) = Inr True
      \<and> market_B \<notin> set (filteredMarkets st')"
    by blast
  have "st' = example_state\<lparr>filteredMarkets := [market_A]\<rparr>"
    using a applyFilters_example by simp
  then have c: "market_A \<in> set (filteredMarkets st')"
    by simp
  have d: "dateFilter (currentFilters example_state) = ''today''"
    by (simp add: example_state_def)
  show ?thesis
    using h a b c d by auto
qed

section \<open>Sorting\<close>

lemma str_lt_total: "\<not> str_lt a b \<Longrightarrow> \<not> str_lt b a \<Longrightarrow> a = b"
proof (induction a b rule: str_lt.induct)
  case (4 x xs y ys)
  from "4.prems" have "\<not> (of_char x :: nat) < of_char y" and "\<not> (of_char y :: nat) < of_char x"
    by auto
  then have "(of_char x :: nat) = of_char y"
    by simp
  then have xy: "x = y"
    by simp
  then have "\<not> str_lt xs ys" and "\<not> str_lt ys xs"
    using "4.prems" by auto
  then show ?case
    using "4.IH" xy by simp
qed simp_all

lemma compare_markets_zero_iff:
  "compare_markets st a b = 0 \<longleftrightarrow> sort_value st a = sort_value st b"
proof
  assume "sort_value st a = sort_value st b"
  then show "compare_markets st a b = 0"
    by (rule compare_markets_same_value)
next
  assume z: "compare_markets st a b = 0"
  show "sort_value st a = sort_value st b"
  proof (cases "sort_value st a")
    case None
    then show ?thesis
      by (auto simp: sort_value_def split: if_splits)
  next
    case (Some x)
    then obtain y where y: "sort_value st b = Some y"
      by (auto simp: sort_value_def split: if_splits)
    have "\<not> str_lt x y" and "\<not> str_lt y x"
      using z Some y by (auto simp: compare_markets_def split: if_splits)
    then have "x = y"
      by (rule str_lt_total)
    then show ?thesis
      using Some y by simp
  qed
qed

lemma applyFilters_sort_state:
  "applyFilters sort_state = Inr (sort_state\<lparr>filteredMarkets := [market_H1, market_H2, market_AF]\<rparr>)"
  by code_simp

lemma applyFilters_sort_state_ascending:
  "applyFilters (sort_state\<lparr>sortAscending := True\<rparr>)
     = Inr (sort_state\<lparr>sortAscending := True, filteredMarkets := [market_AF, market_H1, market_H2]\<rparr>)"
  by code_simp

text \<open>
  Claim C7. Sorting is stable. The comparison function of \<open>sortFilteredMarkets\<close> reports a
  tie exactly for two records with the same lower-cased sort key (name, date text or
  city, by the sort column). For every value \<open>k\<close> of the key, the records with that key
  are in the same order after \<open>sortFilteredMarkets\<close> as before, ascending or descending;
  and in the view that \<open>applyFilters\<close> produces they are in the order of the ingested
  records that pass the filters.
\<close>

theorem sorting_is_stable:
  "(compare_markets st a b = 0 \<longleftrightarrow> sort_value st a = sort_value st b)
   \<and> filter (\<lambda>m. sort_value st m = k) (filteredMarkets (sortFilteredMarkets st))
     = filter (\<lambda>m. sort_value st m = k) (filteredMarkets st)
   \<and> (\<forall>st'. applyFilters st = Inr st' \<longrightarrow>
        filter (\<lambda>m. sort_value st m = k) (filteredMarkets st')
          = filter (\<lambda>m. sort_value st m = k)
              (filter (\<lambda>m. matchesSearch st m \<and> matchesCity st m \<and> matchesDate st m = Inr True) (markets st)))"
proof (intro conjI allI impI)
  show "compare_markets st a b = 0 \<longleftrightarrow> sort_value st a = sort_value st b"
    by (rule compare_markets_zero_iff)
next
  show "filter (\<lambda>m. sort_value st m = k) (filteredMarkets (sortFilteredMarkets st))
     = filter (\<lambda>m. sort_value st m = k) (filteredMarkets st)"
    by (simp add: sortFilteredMarkets_def sort_stable_key)
next
  fix st'
  assume a: "applyFilters st = Inr st'"
  then obtain ms where f: "filter_markets st (markets st) = Inr ms"
    and s: "st' = sortFilteredMarkets (st\<lparr>filteredMarkets := ms\<rparr>)"
    by (auto simp: applyFilters_def split: sum.splits)
  have "filteredMarkets st' = array_sort (compare_markets st) ms"
    using s by (simp add: sortFilteredMarkets_def compare_markets_upd)
  then show "filter (\<lambda>m. sort_value st m = k) (filteredMarkets st')
          = filter (\<lambda>m. sort_value st m = k)
              (filter (\<lambda>m. matchesSearch st m \<and> matchesCity st m \<and> matchesDate st m = Inr True) (markets st))"
    using filter_markets_Inr [OF f] by (simp only: sort_stable_key)
qed

text \<open>
  An instance sorts three records, the first and the third of which tie on the name,
  descending and ascending: the two stay in their order on either side of the third.
\<close>

theorem sorting_is_stable_witness:
  "compare_markets sort_state market_H1 market_H2 = 0
   \<and> applyFilters sort_state = Inr (sort_state\<lparr>filteredMarkets := [market_H1, market_H2, market_AF]\<rparr>)
   \<and> filter (\<lambda>m. sort_value sort_state m = Some ''holiday market'') [market_H1, market_H2, market_AF]
        = [market_H1, market_H2]
   \<and> applyFilters (sort_state\<lparr>sortAscending := True\<rparr>)
        = Inr (sort_state\<lparr>sortAscending := True, filteredMarkets := [market_AF, market_H1, market_H2]\<rparr>)
   \<and> filter (\<lambda>m. sort_value (sort_state\<lparr>sortAscending := True\<rparr>) m = Some ''holiday market'')
        [market_AF, market_H1, market_H2] = [market_H1, market_H2]"
proof -
  let ?k = "Some ''holiday market''"
  let ?asc = "sort_state\<lparr>sortAscending := True\<rparr>"
  have key: "sort_value sort_state market_H1 = sort_value sort_state market_H2"
    by code_simp
  have tie: "compare_markets sort_state market_H1 market_H2 = 0"
    using sorting_is_stable [of sort_state market_H1 market_H2 ?k] key by blast
  have pass: "filter (\<lambda>m. sort_value sort_state m = ?k)
      (filter (\<lambda>m. matchesSearch sort_state m \<and> matchesCity sort_state m
                    \<and> matchesDate sort_state m = Inr True) (markets sort_state))
      = [market_H1, market_H2]"
    by code_simp
  have pass_asc: "filter (\<lambda>m. sort_value ?asc m = ?k)
      (filter (\<lambda>m. matchesSearch ?asc m \<and> matchesCity ?asc m
                    \<and> matchesDate ?asc m = Inr True) (markets ?asc))
      = [market_H1, market_H2]"
    by code_simp
  from sorting_is_stable [of sort_state market_H1 market_H2 ?k] applyFilters_sort_state
  have "filter (\<lambda>m. sort_value sort_state m = ?k)
          (filteredMarkets (sort_state\<lparr>filteredMarkets := [market_H1, market_H2, market_AF]\<rparr>))
      = filter (\<lambda>m. sort_value sort_state m = ?k)
          (filter (\<lambda>m. matchesSearch sort_state m \<and> matchesCity sort_state m
                        \<and> matchesDate sort_state m = Inr True) (markets sort_state))"
    by blast
  then have d: "filter (\<lambda>m. sort_value sort_state m = ?k) [market_H1, market_H2, market_AF]
      = [market_H1, market_H2]"
    unfolding pass by simp
  from sorting_is_stable [of ?asc market_H1 market_H2 ?k] applyFilters_sort_state_ascending
  have "filter (\<lambda>m. sort_value ?asc m = ?k)
          (filteredMarkets (sort_state\<lparr>sortAscending := True, filteredMarkets := [market_AF, market_H1, market_H2]\<rparr>))
      = filter (\<lambda>m. sort_value ?asc m = ?k)
          (filter (\<lambda>m. matchesSearch ?asc m \<and> matchesCity ?asc m
                        \<and> matchesDate ?asc m = Inr True) (markets ?asc))"
    by blast
  then have u: "filter (\<lambda>m. sort_value ?asc m = ?k) [market_AF, market_H1, market_H2]
      = [market_H1, market_H2]"
    unfolding pass_asc by simp
  show ?thesis
    by (rule conjI [OF tie conjI [OF applyFilters_sort_state conjI [OF d
          conjI [OF applyFilters_sort_state_ascending u]]]])
qed

section \<open>The weekend window\<close>




section \<open>The city extractor\<close>

text \<open>
  Claim C8 (as amended). \<open>extractCityFromAddress\<close> has no failing branch: it returns
  "Unknown" or one of the trimmed comma-separated segments of the address. It returns
  "Unknown" for an empty or blank address, and for an address of which no segment matches
  the patterns of the scan, \<open>/\b[A-Z]{2}\b\s*\d{5}/\<close> and \<open>/^[A-Z]{2}$/\<close>, and of which the
  last segment does not match the wider pattern of the fallback, \<open>/[A-Z]{2}\s*\d{5}/\<close>,
  which has no word boundaries. The four examples of the specification evaluate as stated.
\<close>

theorem extract_city_unknown:
  "(extractCityFromAddress addr = ''Unknown''
      \<or> extractCityFromAddress addr \<in> set (map js_trim (split_on CHR '','' addr)))
   \<and> (addr = [] \<or> js_trim addr = [] \<longrightarrow> extractCityFromAddress addr = ''Unknown'')
   \<and> ((\<forall>p \<in> set (map js_trim (split_on CHR '','' addr)). \<not> strict_zip p \<and> \<not> bare_state p)
        \<and> \<not> loose_zip (last (map js_trim (split_on CHR '','' addr)))
      \<longrightarrow> extractCityFromAddress addr = ''Unknown'')
   \<and> extractCityFromAddress ''123 Main St, Denver, CO 80211'' = ''Denver''
   \<and> extractCityFromAddress ''Civic Center Park, 101 W 14th Ave Pkwy, Denver, CO 80202'' = ''Denver''
   \<and> extractCityFromAddress [] = ''Unknown''
   \<and> extractCityFromAddress ''No State Info Here'' = ''Unknown''"
proof -
  let ?parts = "map js_trim (split_on CHR '','' addr)"
  have trimmed: "\<forall>p \<in> set ?parts. js_trim p = p"
    by (auto simp: js_trim_idem)
  have 1: "extractCityFromAddress addr = ''Unknown'' \<or> extractCityFromAddress addr \<in> set ?parts"
  proof (cases "city_scan ?parts (length ?parts)")
    case None
    then show ?thesis
      using city_fallback_result [OF trimmed] by (simp add: extractCityFromAddress_def Let_def)
  next
    case (Some c)
    then have "c \<in> set ?parts"
      by (rule city_scan_result) simp
    then show ?thesis
      using Some by (simp add: extractCityFromAddress_def Let_def)
  qed
  have 2: "addr = [] \<or> js_trim addr = [] \<longrightarrow> extractCityFromAddress addr = ''Unknown''"
    by (simp add: extractCityFromAddress_def)
  have 3: "(\<forall>p \<in> set ?parts. \<not> strict_zip p \<and> \<not> bare_state p) \<and> \<not> loose_zip (last ?parts)
      \<longrightarrow> extractCityFromAddress addr = ''Unknown''"
  proof
    assume h: "(\<forall>p \<in> set ?parts. \<not> strict_zip p \<and> \<not> bare_state p) \<and> \<not> loose_zip (last ?parts)"
    then have s: "city_scan ?parts (length ?parts) = None"
      by (intro city_scan_no_match) simp_all
    have "?parts \<noteq> []"
      by (simp add: split_on_nonempty)
    then have "last ?parts \<in> set ?parts"
      by (rule last_in_set)
    then have "\<not> bare_state (last ?parts)"
      using h by blast
    then have "city_fallback ?parts = ''Unknown''"
      using h by (intro city_fallback_no_match) simp_all
    then show "extractCityFromAddress addr = ''Unknown''"
      using s by (simp add: extractCityFromAddress_def Let_def)
  qed
  have 4: "extractCityFromAddress ''123 Main St, Denver, CO 80211'' = ''Denver''"
    by code_simp
  have 5: "extractCityFromAddress ''Civic Center Park, 101 W 14th Ave Pkwy, Denver, CO 80202'' = ''Denver''"
    by code_simp
  have 6: "extractCityFromAddress [] = ''Unknown''"
    by code_simp
  have 7: "extractCityFromAddress ''No State Info Here'' = ''Unknown''"
    by code_simp
  show ?thesis
    by (rule conjI [OF 1 conjI [OF 2 conjI [OF 3 conjI [OF 4 conjI [OF 5 conjI [OF 6 7]]]]]])
qed

theorem extract_city_unknown_witness:
  "js_trim [CHR 0x20, CHR 0x09] = []
   \<and> extractCityFromAddress [CHR 0x20, CHR 0x09] = ''Unknown''
   \<and> list_all (\<lambda>p. \<not> strict_zip p \<and> \<not> bare_state p)
         (map js_trim (split_on CHR '','' ''Union Station, Wynkoop St''))
   \<and> \<not> loose_zip (last (map js_trim (split_on CHR '','' ''Union Station, Wynkoop St'')))
   \<and> extractCityFromAddress ''Union Station, Wynkoop St'' = ''Unknown''"
proof -
  have b: "js_trim [CHR 0x20, CHR 0x09] = []"
    by code_simp
  have h1: "\<forall>p \<in> set (map js_trim (split_on CHR '','' ''Union Station, Wynkoop St'')). \<not> strict_zip p \<and> \<not> bare_state p"
    by code_simp
  have h2: "\<not> loose_zip (last (map js_trim (split_on CHR '','' ''Union Station, Wynkoop St'')))"
    by code_simp
  from extract_city_unknown [of "[CHR 0x20, CHR 0x09]"] b
  have 1: "extractCityFromAddress [CHR 0x20, CHR 0x09] = ''Unknown''"
    by blast
  from extract_city_unknown [of "''Union Station, Wynkoop St''"] h1 h2
  have 2: "extractCityFromAddress ''Union Station, Wynkoop St'' = ''Unknown''"
    by blast
  have h1': "list_all (\<lambda>p. \<not> strict_zip p \<and> \<not> bare_state p)
         (map js_trim (split_on CHR '','' ''Union Station, Wynkoop St''))"
    using h1 unfolding list_all_iff .
  show ?thesis
    by (rule conjI [OF b conjI [OF 1 conjI [OF h1' conjI [OF h2 2]]]])
qed

text \<open>
  Without the condition on the fallback the claim fails. In "Denver, CO80211" and in
  "Denver, XCO 80211" no segment matches a pattern of the scan, for want of a word
  boundary after or before the two letters, and no segment is a bare state; yet the
  fallback finds two capitals and five digits in the last segment and returns "Denver".
\<close>

theorem extract_city_counterexample:
  "map js_trim (split_on CHR '','' ''Denver, CO80211'') = [''Denver'', ''CO80211'']
   \<and> \<not> strict_zip ''Denver'' \<and> \<not> bare_state ''Denver''
   \<and> \<not> strict_zip ''CO80211'' \<and> \<not> bare_state ''CO80211''
   \<and> extractCityFromAddress ''Denver, CO80211'' = ''Denver''
   \<and> map js_trim (split_on CHR '','' ''Denver, XCO 80211'') = [''Denver'', ''XCO 80211'']
   \<and> \<not> strict_zip ''XCO 80211'' \<and> \<not> bare_state ''XCO 80211''
   \<and> extractCityFromAddress ''Denver, XCO 80211'' = ''Denver''"
  by code_simp

section \<open>The record builder\<close>

text \<open>
  Claim C1 (it fails on the code). The data row \<open>Equator Market,0,-105.5\<close> has three tokens
  and a non-empty name, and both coordinates parse as numbers, 0 and -105.5; yet
  \<open>parseCSV\<close> returns no record for it, because \<open>parseFloat(values[1]) || null\<close> turns the
  latitude 0 into \<open>null\<close> as it does \<open>NaN\<close>.
\<close>

theorem zero_coordinate_row_dropped:
  "length (parseCSVLine ''Equator Market,0,-105.5'') = 3
   \<and> js_trim (parseCSVLine ''Equator Market,0,-105.5'' ! 0) = ''Equator Market''
   \<and> parseFloat (parseCSVLine ''Equator Market,0,-105.5'' ! 1) = Fin 0
   \<and> parseFloat (parseCSVLine ''Equator Market,0,-105.5'' ! 2) = Fin (- (211 / 2))
   \<and> parseCSV (''name,lat,lon'' @ [CHR 0x0A] @ ''Equator Market,0,-105.5'') = []
   \<and> length (parseCSV (''name,lat,lon'' @ [CHR 0x0A] @ ''Equator Market,1,-105.5'')) = 1"
  by code_simp

section \<open>The date-range parser\<close>




text \<open>
  Claim C9 (as amended). A range "month day-day" whose end day is smaller than its start
  day gives no dates, silently, when the start day is a day of the month named, that is,
  when the start date lies in that month. (The end date is built from the month of the
  start date. A start day beyond the end of the month moves the start date into the next
  month and the end date with it: "Nov. 31-30" gives the thirty days 1 to 30 December.)
\<close>

theorem reversed_range_is_empty:
  assumes mon: "map_of monthMap (toLowerCase mon) = Some m"
    and dot: "dot = [] \<or> dot = ''.''"
    and sp: "sp \<noteq> []" "list_all is_ws sp"
    and ds1: "ds1 \<noteq> []" "list_all is_digit ds1"
    and ds2: "ds2 \<noteq> []" "list_all is_digit ds2"
    and less: "parseInt ds2 < parseInt ds1"
    and inmonth: "getMonth (new_Date3 (Some 2025) (Some m) (Some (parseInt ds1))) = Some m"
  shows "parseMarketDates (mon @ dot @ sp @ ds1 @ ''-'' @ ds2) = []"
proof -
  define l where "l = mon @ dot @ sp @ ds1"
  have name: "toLowerCase mon \<in> set (map fst monthMap)"
    by (rule monthMap_range(3) [OF mon])
  have len: "length mon = 3"
    by (rule month_name_chars(1) [OF name])
  have ws_plain: "c \<noteq> CHR '','' \<and> c \<noteq> CHR ''|'' \<and> c \<noteq> CHR ''-''" if "is_ws c" for c
    using that by (auto simp: is_ws_def)
  have dg_plain: "c \<noteq> CHR '','' \<and> c \<noteq> CHR ''|'' \<and> c \<noteq> CHR ''-''" if "is_digit c" for c
    using that by (auto simp: is_digit_def)
  have in_mon: "CHR '','' \<notin> set mon \<and> CHR ''|'' \<notin> set mon"
    using month_name_plain(3,4) [OF name] by blast
  have in_dot: "CHR '','' \<notin> set dot \<and> CHR ''|'' \<notin> set dot"
    using dot by auto
  have in_sp: "CHR '','' \<notin> set sp \<and> CHR ''|'' \<notin> set sp"
    using sp(2) ws_plain [of "CHR '',''"] ws_plain [of "CHR ''|''"] by (auto simp: list_all_iff)
  have in_ds1: "CHR '','' \<notin> set ds1 \<and> CHR ''|'' \<notin> set ds1"
    using ds1(2) dg_plain [of "CHR '',''"] dg_plain [of "CHR ''|''"] by (auto simp: list_all_iff)
  have plain_l: "CHR '','' \<notin> set l \<and> CHR ''|'' \<notin> set l"
    using in_mon in_dot in_sp in_ds1 by (simp add: l_def)
  have plain_r: "CHR '','' \<notin> set ds2 \<and> CHR ''|'' \<notin> set ds2 \<and> CHR ''-'' \<notin> set ds2"
    using ds2(2) dg_plain [of "CHR '',''"] dg_plain [of "CHR ''|''"] dg_plain [of "CHR ''-''"]
    by (auto simp: list_all_iff)
  have l_ne: "l \<noteq> []"
    using sp(1) by (simp add: l_def)
  have hd_l: "\<not> is_ws (hd l)"
  proof -
    obtain c cs where "mon = c # cs"
      using len by (cases mon) auto
    then show ?thesis
      using month_name_plain(1) [OF name, of c] by (simp add: l_def)
  qed
  have last_ds: "\<not> is_ws (last ds)" if "ds \<noteq> []" "list_all is_digit ds" for ds
    using that digit_not_ws [of "last ds"] by (simp add: list_all_iff)
  have last_l: "\<not> is_ws (last l)"
    using last_ds [OF ds1] ds1(1) by (simp add: l_def)
  have hd_ds: "\<not> is_ws (hd ds)" if "ds \<noteq> []" "list_all is_digit ds" for ds
    using that digit_not_ws [of "hd ds"] by (simp add: list_all_iff)
  have trim_l: "js_trim l = l"
    by (rule js_trim_unchanged [OF l_ne hd_l last_l])
  have trim_r: "js_trim ds2 = ds2"
    by (rule js_trim_unchanged [OF ds2(1) hd_ds [OF ds2] last_ds [OF ds2]])
  have whole: "mon @ dot @ sp @ ds1 @ ''-'' @ ds2 = l @ ''-'' @ ds2"
    by (simp add: l_def)
  have trim_s: "js_trim (l @ ''-'' @ ds2) = l @ ''-'' @ ds2"
  proof (rule js_trim_unchanged)
    show "l @ ''-'' @ ds2 \<noteq> []" by simp
    show "\<not> is_ws (hd (l @ ''-'' @ ds2))" using l_ne hd_l by simp
    show "\<not> is_ws (last (l @ ''-'' @ ds2))" using last_ds [OF ds2] ds2(1) by simp
  qed
  have "CHR '','' \<notin> set (l @ ''-'' @ ds2)"
    using plain_l plain_r by simp
  then have "split_on CHR '','' (l @ ''-'' @ ds2) = [l @ ''-'' @ ds2]"
    by (rule split_on_no_separator)
  then have pm: "parseMarketDates (l @ ''-'' @ ds2) = parse_range (l @ ''-'' @ ds2)"
    by (simp only: parseMarketDates_def trim_s list.map concat.simps append_Nil2)
  have "month_day_at True (mon @ dot @ sp @ ds1 @ []) = Some (mon, ds1)"
    using dot by (intro month_day_at_exact [OF name _ sp ds1]) auto
  then have "regex_search (month_day_at True) l = Some (mon, ds1)"
    by (intro regex_search_at_start) (simp add: l_def)
  then have start: "parseDateWithMonth l = Some (new_Date3 (Some 2025) (Some m) (Some (parseInt ds1)))"
    by (simp add: parseDateWithMonth_def date_of_match_month [OF mon])
  have "regex_search (month_day_at True) ds2 = None"
    by (rule no_month_in_digits [OF ds2(2)])
  then have no_end: "parseDateWithMonth ds2 = None"
    by (simp add: parseDateWithMonth_def date_of_match_def)
  have fd: "first_digits ds2 = Some ds2"
    by (rule first_digits_all [OF ds2])
  have "parse_range (l @ ''-'' @ ds2)
      = date_walk (new_Date3 (Some 2025) (Some m) (Some (parseInt ds1)))
          (new_Date3 (Some 2025) (getMonth (new_Date3 (Some 2025) (Some m) (Some (parseInt ds1))))
             (Some (parseInt ds2)))"
    using plain_l plain_r l_ne by (subst parse_range_dash) (simp_all add: trim_l trim_r start no_end fd)
  also have "\<dots> = []"
    by (rule date_walk_reversed [OF inmonth monthMap_range(1,2) [OF mon] parseInt_nonneg less])
  finally show ?thesis
    by (simp only: whole pm)
qed

theorem reversed_range_is_empty_witness:
  "map_of monthMap (toLowerCase ''Dec'') = Some 11
   \<and> list_all is_ws '' '' \<and> list_all is_digit ''14'' \<and> list_all is_digit ''13''
   \<and> parseInt ''13'' < parseInt ''14''
   \<and> getMonth (new_Date3 (Some 2025) (Some 11) (Some (parseInt ''14''))) = Some 11
   \<and> parseMarketDates ''Dec. 14-13'' = []"
proof -
  have 1: "map_of monthMap (toLowerCase ''Dec'') = Some 11"
    by code_simp
  have 2: "''.'' = [] \<or> ''.'' = ''.''"
    by simp
  have 3: "'' '' \<noteq> []" and 4: "list_all is_ws '' ''"
    by (simp_all add: is_ws_def)
  have 5: "''14'' \<noteq> []" and 6: "list_all is_digit ''14''"
    and 7: "''13'' \<noteq> []" and 8: "list_all is_digit ''13''"
    by (simp_all add: is_digit_def)
  have 9: "parseInt ''13'' < parseInt ''14''"
    by code_simp
  have 10: "getMonth (new_Date3 (Some 2025) (Some 11) (Some (parseInt ''14''))) = Some 11"
    by code_simp
  have "parseMarketDates (''Dec'' @ ''.'' @ '' '' @ ''14'' @ ''-'' @ ''13'') = []"
    by (rule reversed_range_is_empty [OF 1 2 3 4 5 6 7 8 9 10])
  then have 11: "parseMarketDates ''Dec. 14-13'' = []"
    by simp
  show ?thesis
    by (rule conjI [OF 1 conjI [OF 4 conjI [OF 6 conjI [OF 8 conjI [OF 9 conjI [OF 10 11]]]]]])
qed

text \<open>
  The claim as stated fails at "Nov. 31-30": the end day 30 is smaller than the start
  day 31, and the parser emits thirty dates, the first of them 1 December.
\<close>

theorem reversed_range_counterexample:
  "parseInt ''30'' < parseInt ''31''
   \<and> length (parseMarketDates ''Nov. 31-30'') = 30
   \<and> hd (parseMarketDates ''Nov. 31-30'') = new_Date3 (Some 2025) (Some 11) (Some 1)"
  by code_simp

section \<open>The season year\<close>

text \<open>
  Claim C3 (as amended). For every input string in which every day number, that is every
  maximal run of digits, lies between 1 and 31, every date returned by
  \<open>parseMarketDates\<close> has the year 2025. (The day numbers are not validated and the
  \<open>Date\<close> constructor carries an overflow into the next month and year: "Dec. 32" gives
  1 January 2026, and "Jan. 0" gives 31 December 2024.)
\<close>

theorem parsed_dates_in_season_year:
  assumes "\<forall>ds \<in> set (digit_runs dateString). 1 \<le> parseInt ds \<and> parseInt ds \<le> 31"
  shows "\<forall>d \<in> set (parseMarketDates dateString). getFullYear d = Some 2025"
proof
  fix d
  assume "d \<in> set (parseMarketDates dateString)"
  then obtain r0 where r0: "r0 \<in> set (split_on CHR '','' dateString)"
    and d: "d \<in> set (parse_range (js_trim r0))"
    unfolding parseMarketDates_def by auto
  have "bounded_in r0 dateString"
    using r0 comma_not_digit by (rule bounded_in_split)
  with bounded_in_trim [of r0] have "bounded_in (js_trim r0) dateString"
    by (rule bounded_in_trans)
  then have "in_2025 d"
    using assms d by (intro in_2025_range)
  then show "getFullYear d = Some 2025"
    by (rule in_2025_fields(1))
qed

theorem parsed_dates_in_season_year_witness:
  "list_all (\<lambda>ds. 1 \<le> parseInt ds \<and> parseInt ds \<le> 31) (digit_runs ''Nov. 28-Dec. 1, Dec. 13-14'')
   \<and> list_all (\<lambda>d. getFullYear d = Some 2025) (parseMarketDates ''Nov. 28-Dec. 1, Dec. 13-14'')
   \<and> length (parseMarketDates ''Nov. 28-Dec. 1, Dec. 13-14'') = 6"
proof -
  have h: "\<forall>ds \<in> set (digit_runs ''Nov. 28-Dec. 1, Dec. 13-14''). 1 \<le> parseInt ds \<and> parseInt ds \<le> 31"
    by code_simp
  have n: "length (parseMarketDates ''Nov. 28-Dec. 1, Dec. 13-14'') = 6"
    by code_simp
  have 1: "list_all (\<lambda>ds. 1 \<le> parseInt ds \<and> parseInt ds \<le> 31) (digit_runs ''Nov. 28-Dec. 1, Dec. 13-14'')"
    using h unfolding list_all_iff .
  have 2: "list_all (\<lambda>d. getFullYear d = Some 2025) (parseMarketDates ''Nov. 28-Dec. 1, Dec. 13-14'')"
    using parsed_dates_in_season_year [OF h] unfolding list_all_iff .
  show ?thesis
    by (rule conjI [OF 1 conjI [OF 2 n]])
qed

text \<open>
  The claim as stated fails at "Dec. 32", whose only date has the year 2026, and at
  "Jan. 0", whose only date has the year 2024.
\<close>

theorem season_year_counterexample:
  "map getFullYear (parseMarketDates ''Dec. 32'') = [Some 2026]
   \<and> map getFullYear (parseMarketDates ''Jan. 0'') = [Some 2024]"
  by code_simp


end
